theory Spec2Isabelle
  imports Complex_Main "HOL-Library.Multiset"
begin

section \<open>Time\<close>

text \<open>
  A JavaScript \<^verbatim>\<open>Date\<close> is an instant: milliseconds since the epoch, here an \<open>int\<close>.
  Date strings that do not parse (\<^verbatim>\<open>Invalid Date\<close>) are outside the model: every
  date field of a request body is either absent/falsy (\<open>None\<close>) or an instant.
\<close>

type_synonym instant = int

definition DAY :: int where
  "DAY = 86400000"

definition HOUR :: int where
  "HOUR = 3600000"

text \<open>
  The server's time zone, as the engine consults it. Offsets are milliseconds east of
  UTC. \<open>utc_offset z t\<close> is the offset in force at the instant \<open>t\<close>; \<open>local_offset z l\<close>
  is the offset with which a local time value \<open>l\<close> is read back as an instant (for a
  local time that occurs twice or not at all, the offset before the transition).
\<close>

record zone =
  utc_offset :: "instant \<Rightarrow> int"
  local_offset :: "int \<Rightarrow> int"

definition fixed_zone :: "int \<Rightarrow> zone" where
  "fixed_zone off = \<lparr>utc_offset = (\<lambda>t. off), local_offset = (\<lambda>l. off)\<rparr>"

text \<open>
  Europe/Paris in 2024: UTC+1, and UTC+2 from 2024-03-31T01:00Z (day 19813 of the
  epoch) to 2024-10-27T01:00Z (day 20023). In local time the clocks jump from 02:00 to
  03:00 on the first date and fall back from 03:00 to 02:00 on the second.
\<close>

definition europe_paris_2024 :: zone where
  "europe_paris_2024 =
     \<lparr>utc_offset = (\<lambda>t. if 19813 * DAY + HOUR \<le> t \<and> t < 20023 * DAY + HOUR
                         then 2 * HOUR else HOUR),
      local_offset = (\<lambda>l. if 19813 * DAY + 3 * HOUR \<le> l \<and> l < 20023 * DAY + 3 * HOUR
                           then 2 * HOUR else HOUR)\<rparr>"

text \<open>
  \<^verbatim>\<open>current.setDate(current.getDate() + 1)\<close>: the same local time of day on the next
  local calendar date.
\<close>

definition setDate_next :: "zone \<Rightarrow> instant \<Rightarrow> instant" where
  "setDate_next z t =
     (let local = t + utc_offset z t;
          next = local + DAY
      in next - local_offset z next)"

text \<open>
  \<^verbatim>\<open>new Date(d).toISOString().split('T')[0]\<close>: the UTC calendar date of an instant. The
  string \<^verbatim>\<open>YYYY-MM-DD\<close> and the number of the UTC day determine each other, so the key is
  the day number.
\<close>

definition dateKey :: "instant \<Rightarrow> int" where
  "dateKey t = t div DAY"

text \<open>\<^verbatim>\<open>d.setHours(0, 0, 0, 0); d.getTime()\<close>: midnight of the server-local calendar date.\<close>

definition local_midnight :: "zone \<Rightarrow> instant \<Rightarrow> instant" where
  "local_midnight z t =
     (let local = t + utc_offset z t;
          midnight = local - local mod DAY
      in midnight - local_offset z midnight)"

section \<open>Numbers and property lookups\<close>

text \<open>
  A JavaScript \<^verbatim>\<open>number\<close> as far as the modelled code tells values apart:
  \<^verbatim>\<open>NaN\<close> or a rational. Rounding, signed zero and the infinities are not modelled.
\<close>

datatype jsnum = NaN | Num rat

fun truthy :: "jsnum \<Rightarrow> bool" where
  "truthy NaN = False"
| "truthy (Num r) = (r \<noteq> 0)"

text \<open>
  Division. Every call in the modelled code guards the divisor with a truthiness test,
  so the quotient by zero (an infinity in JavaScript) is never reached.
\<close>

fun js_div :: "jsnum \<Rightarrow> jsnum \<Rightarrow> jsnum" where
  "js_div (Num a) (Num b) = (if b = 0 then NaN else Num (a / b))"
| "js_div _ _ = NaN"

text \<open>\<^verbatim>\<open>x ? parseFloat(x) : null\<close> on a numeric field of a request body.\<close>

definition parse_opt :: "jsnum option \<Rightarrow> jsnum option" where
  "parse_opt x = (case x of None \<Rightarrow> None | Some v \<Rightarrow> if truthy v then Some v else None)"

text \<open>
  What \<^verbatim>\<open>obj[key]\<close> yields on a plain object whose own properties are numbers: the own
  value, or a member inherited from \<^verbatim>\<open>Object.prototype\<close> (a function or an object:
  truthy, and \<^verbatim>\<open>NaN\<close> as a number), or \<^verbatim>\<open>undefined\<close>.
\<close>

datatype jsval = Undefined | Number jsnum | Inherited

definition object_prototype_keys :: "string list" where
  "object_prototype_keys =
     [''constructor'', ''__defineGetter__'', ''__defineSetter__'', ''hasOwnProperty'',
      ''__lookupGetter__'', ''__lookupSetter__'', ''isPrototypeOf'',
      ''propertyIsEnumerable'', ''toString'', ''valueOf'', ''__proto__'',
      ''toLocaleString'']"

definition js_get :: "(string \<rightharpoonup> jsnum) \<Rightarrow> string \<Rightarrow> jsval" where
  "js_get obj key =
     (case obj key of
        Some v \<Rightarrow> Number v
      | None \<Rightarrow> if key \<in> set object_prototype_keys then Inherited else Undefined)"

fun val_truthy :: "jsval \<Rightarrow> bool" where
  "val_truthy Undefined = False"
| "val_truthy (Number n) = truthy n"
| "val_truthy Inherited = True"

text \<open>\<^verbatim>\<open>x / v\<close> for a number \<open>x\<close> and a looked-up \<open>v\<close>.\<close>

fun val_div :: "jsnum \<Rightarrow> jsval \<Rightarrow> jsnum" where
  "val_div x (Number n) = js_div x n"
| "val_div x _ = NaN"

section \<open>Persisted entities\<close>

text \<open>
  Modelled from the spec: the Prisma schema is not among the sources. Identifiers are
  generated by the store on creation (here: natural numbers drawn from a counter);
  a Day belongs to a Trip, an Activity to a Day, and deleting a Day deletes its
  Activities (cascade). The fields are the ones the route handlers read and write.
\<close>

record trip =
  t_id :: nat
  t_title :: string
  t_destination :: "string option"
  t_startDate :: instant
  t_endDate :: instant
  t_budget :: "jsnum option"
  t_currency :: "string option"
  t_coverImage :: "string option"

record day =
  d_id :: nat
  d_tripId :: nat
  d_date :: instant
  d_index :: nat

text \<open>
  The \<^verbatim>\<open>images\<close> of a request body are an array of strings or a string. The stored
  column holds a text: the JSON text of such a value (\<open>Json_text\<close>, standing for
  \<^verbatim>\<open>JSON.stringify\<close> of it) or a string as it came (\<open>Plain\<close>). The stored
  \<^verbatim>\<open>details\<close> are the JSON text of the body's value.
\<close>

datatype images = Images_array "string list" | Images_string string

datatype stored_images = Json_text images | Plain string

record activity =
  a_id :: nat
  a_dayId :: nat
  a_type :: string
  a_title :: string
  a_description :: "string option"
  a_location :: "string option"
  a_startTime :: "instant option"
  a_endTime :: "instant option"
  a_cost :: "jsnum option"
  a_currency :: "string option"
  a_images :: "stored_images option"
  a_details :: "string option"

record db =
  db_trips :: "trip list"
  db_days :: "day list"
  db_acts :: "activity list"
  db_next :: nat

datatype 'a response = Ok 'a | Status nat

subsection \<open>The store's operations\<close>

text \<open>\<^verbatim>\<open>prisma.day.create\<close>: a row with a fresh id, appended.\<close>

definition day_create :: "nat \<Rightarrow> instant \<Rightarrow> nat \<Rightarrow> db \<Rightarrow> db" where
  "day_create tid dt i s =
     s\<lparr>db_days := db_days s @ [\<lparr>d_id = db_next s, d_tripId = tid, d_date = dt, d_index = i\<rparr>],
       db_next := Suc (db_next s)\<rparr>"

text \<open>
  \<^verbatim>\<open>prisma.day.delete({ where: { id } })\<close>: throws (\<open>None\<close>) when no row has the id;
  otherwise removes the row and, by cascade, its Activities.
\<close>

definition day_delete :: "nat \<Rightarrow> db \<Rightarrow> db option" where
  "day_delete i s =
     (if i \<in> d_id ` set (db_days s)
      then Some (s\<lparr>db_days := filter (\<lambda>d. d_id d \<noteq> i) (db_days s),
                   db_acts := filter (\<lambda>a. a_dayId a \<noteq> i) (db_acts s)\<rparr>)
      else None)"

text \<open>\<^verbatim>\<open>prisma.day.update({ where: { id }, data: { index } })\<close>: throws when no row has the id.\<close>

definition day_update_index :: "nat \<Rightarrow> nat \<Rightarrow> db \<Rightarrow> db option" where
  "day_update_index i n s =
     (if i \<in> d_id ` set (db_days s)
      then Some (s\<lparr>db_days := map (\<lambda>d. if d_id d = i then d\<lparr>d_index := n\<rparr> else d) (db_days s)\<rparr>)
      else None)"

section \<open>Trip creation: \<^verbatim>\<open>POST /api/trips\<close>\<close>

record trip_body =
  tb_title :: "string option"
  tb_destination :: "string option"
  tb_startDate :: "instant option"
  tb_endDate :: "instant option"
  tb_budget :: "jsnum option"
  tb_currency :: "string option"
  tb_coverImage :: "string option"

text \<open>A string field is falsy when it is absent or empty.\<close>

definition str_truthy :: "string option \<Rightarrow> bool" where
  "str_truthy x = (case x of None \<Rightarrow> False | Some v \<Rightarrow> v \<noteq> [])"

text \<open>
  The \<^verbatim>\<open>while (currentDate <= end)\<close> loop that fills \<^verbatim>\<open>daysToCreate\<close> with
  \<^verbatim>\<open>{ date, index }\<close> pairs. Nothing in the handler bounds the loop: whether it ends
  depends on the steps the zone gives, so the result is \<open>None\<close> when it does not.
\<close>

partial_function (option) daysToCreate ::
    "zone \<Rightarrow> instant \<Rightarrow> instant \<Rightarrow> nat \<Rightarrow> (instant \<times> nat) list option" where
  "daysToCreate z currentDate end index =
     (if currentDate \<le> end
      then Option.bind (daysToCreate z (setDate_next z currentDate) end (Suc index))
             (\<lambda>rest. Some ((currentDate, index) # rest))
      else Some [])"

text \<open>The nested \<^verbatim>\<open>days: { create: daysToCreate }\<close>: one row per pair, ids in sequence.\<close>

fun create_days :: "nat \<Rightarrow> (instant \<times> nat) list \<Rightarrow> db \<Rightarrow> db" where
  "create_days tid [] s = s"
| "create_days tid ((dt, i) # ps) s = create_days tid ps (day_create tid dt i s)"

text \<open>The handler; \<open>None\<close> when it never answers.\<close>

definition POST_trip ::
    "zone \<Rightarrow> db \<Rightarrow> trip_body \<Rightarrow> ((trip \<times> day list) response \<times> db) option" where
  "POST_trip z s body =
     (case (tb_title body, tb_startDate body, tb_endDate body) of
        (Some title, Some start, Some end) \<Rightarrow>
          if title = [] then Some (Status 400, s)
          else
            (case daysToCreate z start end 0 of
               None \<Rightarrow> None
             | Some ps \<Rightarrow>
                 let tr = \<lparr>t_id = db_next s, t_title = title,
                           t_destination = tb_destination body,
                           t_startDate = start, t_endDate = end,
                           t_budget = parse_opt (tb_budget body),
                           t_currency = tb_currency body, t_coverImage = tb_coverImage body\<rparr>;
                     s1 = s\<lparr>db_trips := db_trips s @ [tr], db_next := Suc (db_next s)\<rparr>;
                     s2 = create_days (t_id tr) ps s1
                 in Some (Ok (tr, filter (\<lambda>d. d_tripId d = t_id tr) (db_days s2)), s2))
      | _ \<Rightarrow> Some (Status 400, s))"

section \<open>Trip update and Day reconciliation: \<^verbatim>\<open>PATCH /api/trips/[id]\<close>\<close>

text \<open>
  \<^verbatim>\<open>prisma.trip.update\<close> with the handler's \<^verbatim>\<open>data\<close>: a falsy title, destination or
  budget leaves the stored value, the two dates are always written, the cover image is
  written when the body has the field.
\<close>

definition trip_update :: "nat \<Rightarrow> trip_body \<Rightarrow> instant \<Rightarrow> instant \<Rightarrow> trip \<Rightarrow> trip" where
  "trip_update tid body newStart newEnd tr =
     (if t_id tr = tid
      then tr\<lparr>t_title := (case tb_title body of
                            None \<Rightarrow> t_title tr
                          | Some v \<Rightarrow> if v = [] then t_title tr else v),
              t_destination := (if str_truthy (tb_destination body) then tb_destination body
                                else t_destination tr),
              t_startDate := newStart,
              t_endDate := newEnd,
              t_budget := (case parse_opt (tb_budget body) of None \<Rightarrow> t_budget tr | Some b \<Rightarrow> Some b),
              t_coverImage := (case tb_coverImage body of None \<Rightarrow> t_coverImage tr | Some c \<Rightarrow> Some c)\<rparr>
      else tr)"

text \<open>
  \<^verbatim>\<open>existingDaysByDate\<close>: the Days of the Trip keyed by UTC date; a later Day with the
  same key replaces an earlier one.
\<close>

definition existingDaysByDate :: "day list \<Rightarrow> (int \<rightharpoonup> day)" where
  "existingDaysByDate ds = foldl (\<lambda>m d. m(dateKey (d_date d) \<mapsto> d)) Map.empty ds"

text \<open>\<^verbatim>\<open>newDates\<close>: the \<^verbatim>\<open>while (current <= newEnd)\<close> loop, unbounded like the one above.\<close>

partial_function (option) newDates :: "zone \<Rightarrow> instant \<Rightarrow> instant \<Rightarrow> instant list option" where
  "newDates z current newEnd =
     (if current \<le> newEnd
      then Option.bind (newDates z (setDate_next z current) newEnd) (\<lambda>rest. Some (current # rest))
      else Some [])"

text \<open>
  The first \<^verbatim>\<open>for\<close> loop: delete the Days outside the new range. The result is
  \<open>(completed, store)\<close>; when a store operation throws the loop stops and the store stays
  as it was at that point (nothing is rolled back).
\<close>

fun delete_outside :: "day list \<Rightarrow> instant \<Rightarrow> instant \<Rightarrow> db \<Rightarrow> bool \<times> db" where
  "delete_outside [] newStart newEnd s = (True, s)"
| "delete_outside (dy # ds) newStart newEnd s =
     (if d_date dy < newStart \<or> d_date dy > newEnd
      then (case day_delete (d_id dy) s of
              None \<Rightarrow> (False, s)
            | Some s' \<Rightarrow> delete_outside ds newStart newEnd s')
      else delete_outside ds newStart newEnd s)"

text \<open>
  The second \<^verbatim>\<open>for\<close> loop over \<^verbatim>\<open>newDates\<close>, \<open>i\<close> the loop counter: create the Day
  when the key is not in \<^verbatim>\<open>existingDaysByDate\<close>, otherwise write the index of the Day
  found there.
\<close>

fun upsert_days :: "(int \<rightharpoonup> day) \<Rightarrow> nat \<Rightarrow> instant list \<Rightarrow> nat \<Rightarrow> db \<Rightarrow> bool \<times> db" where
  "upsert_days ex tid [] i s = (True, s)"
| "upsert_days ex tid (nd # nds) i s =
     (case ex (dateKey nd) of
        None \<Rightarrow> upsert_days ex tid nds (Suc i) (day_create tid nd i s)
      | Some dy \<Rightarrow>
          (case day_update_index (d_id dy) i s of
             None \<Rightarrow> (False, s)
           | Some s' \<Rightarrow> upsert_days ex tid nds (Suc i) s'))"

text \<open>The body of \<^verbatim>\<open>if (datesChanged) { ... }\<close>, on the Days fetched before the update.\<close>

definition regenerate_days ::
    "zone \<Rightarrow> nat \<Rightarrow> day list \<Rightarrow> instant \<Rightarrow> instant \<Rightarrow> db \<Rightarrow> (bool \<times> db) option" where
  "regenerate_days z tid currentDays newStart newEnd s =
     (case newDates z newStart newEnd of
        None \<Rightarrow> None
      | Some nds \<Rightarrow>
          Some (case delete_outside currentDays newStart newEnd s of
                  (False, s1) \<Rightarrow> (False, s1)
                | (True, s1) \<Rightarrow> upsert_days (existingDaysByDate currentDays) tid nds 0 s1))"

definition datesChanged :: "trip_body \<Rightarrow> trip \<Rightarrow> bool" where
  "datesChanged body cur =
     ((case tb_startDate body of None \<Rightarrow> False | Some t \<Rightarrow> t \<noteq> t_startDate cur) \<or>
      (case tb_endDate body of None \<Rightarrow> False | Some t \<Rightarrow> t \<noteq> t_endDate cur))"

definition PATCH_trip :: "zone \<Rightarrow> db \<Rightarrow> nat \<Rightarrow> trip_body \<Rightarrow> (trip response \<times> db) option" where
  "PATCH_trip z s tid body =
     (case find (\<lambda>t. t_id t = tid) (db_trips s) of
        None \<Rightarrow> Some (Status 404, s)
      | Some currentTrip \<Rightarrow>
          let currentDays = filter (\<lambda>d. d_tripId d = tid) (db_days s);
              newStart = (case tb_startDate body of Some t \<Rightarrow> t | None \<Rightarrow> t_startDate currentTrip);
              newEnd = (case tb_endDate body of Some t \<Rightarrow> t | None \<Rightarrow> t_endDate currentTrip);
              updatedTrip = trip_update tid body newStart newEnd currentTrip;
              s1 = s\<lparr>db_trips := map (trip_update tid body newStart newEnd) (db_trips s)\<rparr>
          in if datesChanged body currentTrip
             then (case regenerate_days z tid currentDays newStart newEnd s1 of
                     None \<Rightarrow> None
                   | Some (False, s2) \<Rightarrow> Some (Status 500, s2)
                   | Some (True, s2) \<Rightarrow> Some (Ok updatedTrip, s2))
             else Some (Ok updatedTrip, s1))"

section \<open>Activities: \<^verbatim>\<open>POST\<close> and \<^verbatim>\<open>PATCH /api/activities\<close>\<close>

text \<open>
  The body of \<^verbatim>\<open>POST\<close>. \<open>ab_details\<close> is the JSON text of the body's \<^verbatim>\<open>details\<close>,
  \<open>None\<close> when the field is absent or falsy.
\<close>

record activity_body =
  ab_dayId :: "nat option"
  ab_type :: string
  ab_title :: string
  ab_description :: "string option"
  ab_location :: "string option"
  ab_startTime :: "instant option"
  ab_endTime :: "instant option"
  ab_cost :: "jsnum option"
  ab_currency :: "string option"
  ab_images :: "images option"
  ab_details :: "string option"

text \<open>
  The date auto-correction of \<^verbatim>\<open>POST\<close>: the \<^verbatim>\<open>dayId\<close> after the
  \<^verbatim>\<open>if (startTime) { ... }\<close> block. \<^verbatim>\<open>currentDay.trip.days\<close> are the Days of the Day's
  Trip in the store's order; \<^verbatim>\<open>find\<close> returns the first match.
\<close>

definition assign_day :: "zone \<Rightarrow> db \<Rightarrow> nat \<Rightarrow> instant \<Rightarrow> nat" where
  "assign_day z s dayId startTime =
     (let activityDate = local_midnight z startTime in
      case find (\<lambda>d. d_id d = dayId) (db_days s) of
        None \<Rightarrow> dayId
      | Some currentDay \<Rightarrow>
          let currentDayDate = local_midnight z (d_date currentDay) in
          if activityDate \<noteq> currentDayDate
          then (case find (\<lambda>d. local_midnight z (d_date d) = activityDate)
                       (filter (\<lambda>d. d_tripId d = d_tripId currentDay) (db_days s)) of
                  None \<Rightarrow> dayId
                | Some correctDay \<Rightarrow> d_id correctDay)
          else dayId)"

text \<open>\<^verbatim>\<open>images ? JSON.stringify(images) : null\<close>: an empty string is falsy, an array is not.\<close>

definition stringify_images :: "images option \<Rightarrow> stored_images option" where
  "stringify_images x =
     (case x of
        None \<Rightarrow> None
      | Some (Images_string s) \<Rightarrow> if s = [] then None else Some (Json_text (Images_string s))
      | Some (Images_array xs) \<Rightarrow> Some (Json_text (Images_array xs)))"

text \<open>
  \<^verbatim>\<open>prisma.activity.create\<close>: throws when the Day does not exist (foreign key);
  otherwise appends a row with a fresh id. An empty string among the optional text
  fields is stored as it is.
\<close>

definition activity_create :: "nat \<Rightarrow> activity_body \<Rightarrow> db \<Rightarrow> (activity \<times> db) option" where
  "activity_create dayId body s =
     (if dayId \<in> d_id ` set (db_days s)
      then let act = \<lparr>a_id = db_next s, a_dayId = dayId, a_type = ab_type body,
                       a_title = ab_title body, a_description = ab_description body,
                       a_location = ab_location body, a_startTime = ab_startTime body,
                       a_endTime = ab_endTime body, a_cost = parse_opt (ab_cost body),
                       a_currency = ab_currency body,
                       a_images = stringify_images (ab_images body),
                       a_details = ab_details body\<rparr>
           in Some (act, s\<lparr>db_acts := db_acts s @ [act], db_next := Suc (db_next s)\<rparr>)
      else None)"

text \<open>
  The handler. A body without \<^verbatim>\<open>dayId\<close> makes the store's call throw; every throw is
  caught and answered with status 500.
\<close>

definition POST_activity :: "zone \<Rightarrow> db \<Rightarrow> activity_body \<Rightarrow> activity response \<times> db" where
  "POST_activity z s body =
     (case ab_dayId body of
        None \<Rightarrow> (Status 500, s)
      | Some dayId0 \<Rightarrow>
          let dayId = (case ab_startTime body of
                         None \<Rightarrow> dayId0
                       | Some st \<Rightarrow> assign_day z s dayId0 st)
          in case activity_create dayId body s of
               None \<Rightarrow> (Status 500, s)
             | Some (act, s') \<Rightarrow> (Ok act, s'))"

text \<open>
  The body of \<^verbatim>\<open>PATCH\<close>: a field is \<open>None\<close> when the body does not have it
  (\<^verbatim>\<open>undefined\<close>); a nullable field that is present carries its new value, \<open>None\<close> for
  \<^verbatim>\<open>null\<close> or another falsy value.
\<close>

record activity_patch =
  ap_id :: "nat option"
  ap_dayId :: "nat option"
  ap_type :: "string option"
  ap_title :: "string option"
  ap_description :: "string option option"
  ap_location :: "string option option"
  ap_startTime :: "instant option option"
  ap_cost :: "jsnum option option"
  ap_currency :: "string option option"
  ap_images :: "images option option"

text \<open>\<^verbatim>\<open>Array.isArray(images) ? JSON.stringify(images) : images\<close>\<close>

definition patch_images :: "images option \<Rightarrow> stored_images option" where
  "patch_images x =
     (case x of
        None \<Rightarrow> None
      | Some (Images_array xs) \<Rightarrow> Some (Json_text (Images_array xs))
      | Some (Images_string s) \<Rightarrow> Some (Plain s))"

text \<open>\<^verbatim>\<open>updateData\<close> applied to a row: only the fields that are provided.\<close>

definition apply_patch :: "activity_patch \<Rightarrow> activity \<Rightarrow> activity" where
  "apply_patch p a =
     a\<lparr>a_dayId := (case ap_dayId p of None \<Rightarrow> a_dayId a | Some v \<Rightarrow> v),
       a_type := (case ap_type p of None \<Rightarrow> a_type a | Some v \<Rightarrow> v),
       a_title := (case ap_title p of None \<Rightarrow> a_title a | Some v \<Rightarrow> v),
       a_description := (case ap_description p of None \<Rightarrow> a_description a | Some v \<Rightarrow> v),
       a_location := (case ap_location p of None \<Rightarrow> a_location a | Some v \<Rightarrow> v),
       a_startTime := (case ap_startTime p of None \<Rightarrow> a_startTime a | Some v \<Rightarrow> v),
       a_cost := (case ap_cost p of None \<Rightarrow> a_cost a | Some v \<Rightarrow> parse_opt v),
       a_currency := (case ap_currency p of None \<Rightarrow> a_currency a | Some v \<Rightarrow> v),
       a_images := (case ap_images p of None \<Rightarrow> a_images a | Some v \<Rightarrow> patch_images v)\<rparr>"

text \<open>
  \<^verbatim>\<open>prisma.activity.update\<close>: throws when no row has the id, or when the new
  \<^verbatim>\<open>dayId\<close> names no Day (foreign key).
\<close>

definition activity_update :: "nat \<Rightarrow> activity_patch \<Rightarrow> db \<Rightarrow> (activity \<times> db) option" where
  "activity_update i p s =
     (case find (\<lambda>a. a_id a = i) (db_acts s) of
        None \<Rightarrow> None
      | Some a \<Rightarrow>
          if (case ap_dayId p of None \<Rightarrow> True | Some v \<Rightarrow> v \<in> d_id ` set (db_days s))
          then Some (apply_patch p a,
                     s\<lparr>db_acts := map (\<lambda>x. if a_id x = i then apply_patch p x else x) (db_acts s)\<rparr>)
          else None)"

definition PATCH_activity :: "db \<Rightarrow> activity_patch \<Rightarrow> activity response \<times> db" where
  "PATCH_activity s p =
     (case ap_id p of
        None \<Rightarrow> (Status 400, s)
      | Some i \<Rightarrow>
          (case activity_update i p s of
             None \<Rightarrow> (Status 500, s)
           | Some (act, s') \<Rightarrow> (Ok act, s')))"

section \<open>Currency service\<close>

text \<open>
  A rate table is a plain object; the map holds its own properties, taken to be numbers
  as the type of the table declares. Every read \<^verbatim>\<open>table[key]\<close> goes through \<open>js_get\<close>.
  The hard-coded table of \<^verbatim>\<open>getFallbackRates\<close> is anchored to EUR = 1.
\<close>

definition fallbackEUR :: "(string \<times> jsnum) list" where
  "fallbackEUR =
     [(''EUR'', Num 1), (''USD'', Num (108 / 100)), (''GBP'', Num (86 / 100)),
      (''JPY'', Num (1625 / 10)), (''LKR'', Num 340), (''THB'', Num (385 / 10)),
      (''LAK'', Num 22500), (''PHP'', Num (615 / 10))]"

definition getFallbackRates :: "string \<Rightarrow> (string \<rightharpoonup> jsnum)" where
  "getFallbackRates base =
     (if base = ''EUR'' then map_of fallbackEUR
      else
        let found = js_get (map_of fallbackEUR) base;
            euroRate = (if val_truthy found then found else Number (Num 1))
        in map_of (map (\<lambda>(currency, rate). (currency, val_div rate euroRate)) fallbackEUR))"

text \<open>
  \<^verbatim>\<open>convertCurrency\<close>. The first argument stands for \<^verbatim>\<open>getExchangeRates\<close>: the table the
  service answers for a base currency (from its cache, from the network, or the fallback
  table).
\<close>

definition convertCurrency ::
    "(string \<Rightarrow> (string \<rightharpoonup> jsnum)) \<Rightarrow> jsnum \<Rightarrow> string \<Rightarrow> string \<Rightarrow> jsnum" where
  "convertCurrency getExchangeRates amount fromCurrency toCurrency =
     (if fromCurrency = toCurrency then amount
      else if \<not> truthy amount then Num 0
      else
        let rates = getExchangeRates toCurrency;
            fromRate = js_get rates fromCurrency
        in if \<not> val_truthy fromRate then amount else val_div amount fromRate)"

section \<open>Export formatters\<close>

text \<open>The Trip as the client holds it: Days with their Activities nested.\<close>

record cday =
  cd_id :: nat
  cd_date :: instant
  cd_index :: nat
  cd_activities :: "activity list"

record ctrip =
  ct_id :: nat
  ct_title :: string
  ct_destination :: string
  ct_startDate :: instant
  ct_endDate :: instant
  ct_budget :: "jsnum option"
  ct_currency :: "string option"
  ct_days :: "cday list"

text \<open>The comparator the formatters pass to \<^verbatim>\<open>sort\<close>.\<close>

definition byStartTime :: "activity \<Rightarrow> activity \<Rightarrow> int" where
  "byStartTime a b =
     (case a_startTime a of
        None \<Rightarrow> 1
      | Some ta \<Rightarrow> (case a_startTime b of None \<Rightarrow> - 1 | Some tb \<Rightarrow> ta - tb))"

text \<open>
  \<^verbatim>\<open>[...xs].sort(cmp)\<close> runs the sort of the engine the page is opened in. It is a
  parameter of the formatters that sort: \<open>srt cmp xs\<close> is the array the engine returns.
\<close>

type_synonym 'a array_sort = "('a \<Rightarrow> 'a \<Rightarrow> int) \<Rightarrow> 'a list \<Rightarrow> 'a list"

text \<open>
  What each formatter renders, in order. The PDF, plain-text and Markdown formatters
  write one section per Day of \<^verbatim>\<open>daysWithActivities\<close>, with the Day's
  \<^verbatim>\<open>sortedActivities\<close>; the drawing and the text of each item are not modelled.
\<close>

definition exportPDF :: "activity array_sort \<Rightarrow> ctrip \<Rightarrow> (cday \<times> activity list) list" where
  "exportPDF srt trip =
     map (\<lambda>day. (day, srt byStartTime (cd_activities day)))
       (filter (\<lambda>day. length (cd_activities day) > 0) (ct_days trip))"

definition exportText :: "activity array_sort \<Rightarrow> ctrip \<Rightarrow> (cday \<times> activity list) list" where
  "exportText srt trip =
     map (\<lambda>day. (day, srt byStartTime (cd_activities day)))
       (filter (\<lambda>d. length (cd_activities d) > 0) (ct_days trip))"

definition exportMarkdown :: "activity array_sort \<Rightarrow> ctrip \<Rightarrow> (cday \<times> activity list) list" where
  "exportMarkdown srt trip =
     map (\<lambda>day. (day, srt byStartTime (cd_activities day)))
       (filter (\<lambda>d. length (cd_activities d) > 0) (ct_days trip))"

text \<open>The spreadsheet: one row per Activity, Days without Activities skipped, no sort.\<close>

definition exportExcel :: "ctrip \<Rightarrow> (cday \<times> activity) list" where
  "exportExcel trip =
     concat (map (\<lambda>day. if length (cd_activities day) = 0 then []
                         else map (\<lambda>act. (day, act)) (cd_activities day))
                 (ct_days trip))"

text \<open>The calendar file: one event per Activity of every Day, in the stored order.\<close>

definition exportToCalendar :: "ctrip \<Rightarrow> (cday \<times> activity) list" where
  "exportToCalendar trip =
     concat (map (\<lambda>day. map (\<lambda>act. (day, act)) (cd_activities day)) (ct_days trip))"

text \<open>
  The JSON document, as it reads back from the file: a \<^verbatim>\<open>NaN\<close> cost is written as
  \<^verbatim>\<open>null\<close>.
\<close>

record jact =
  ja_title :: string
  ja_type :: string
  ja_description :: "string option"
  ja_location :: "string option"
  ja_startTime :: "instant option"
  ja_cost :: "jsnum option"
  ja_currency :: "string option"

record jday =
  jy_date :: instant
  jy_dayIndex :: nat
  jy_activities :: "jact list option"

record jdoc =
  jd_title :: string
  jd_destination :: string
  jd_startDate :: instant
  jd_endDate :: instant
  jd_budget :: "jsnum option"
  jd_currency :: "string option"
  jd_activities :: "jact list option"
  jd_days :: "jday list option"

definition json_number :: "jsnum option \<Rightarrow> jsnum option" where
  "json_number x = (case x of Some (Num r) \<Rightarrow> Some (Num r) | _ \<Rightarrow> None)"

definition exportJSON :: "ctrip \<Rightarrow> jdoc" where
  "exportJSON trip =
     \<lparr>jd_title = ct_title trip, jd_destination = ct_destination trip,
      jd_startDate = ct_startDate trip, jd_endDate = ct_endDate trip,
      jd_budget = json_number (ct_budget trip), jd_currency = ct_currency trip,
      jd_activities = None,
      jd_days = Some (map (\<lambda>day.
          \<lparr>jy_date = cd_date day, jy_dayIndex = cd_index day,
           jy_activities = Some (map (\<lambda>act.
               \<lparr>ja_title = a_title act, ja_type = a_type act,
                ja_description = a_description act, ja_location = a_location act,
                ja_startTime = a_startTime act, ja_cost = json_number (a_cost act),
                ja_currency = a_currency act\<rparr>) (cd_activities day))\<rparr>) (ct_days trip))\<rparr>"

section \<open>Import of Activities from a JSON file\<close>








section \<open>Store invariant and example data\<close>

text \<open>
  What the store guarantees of its rows: identifiers of Days are unique (primary key),
  and every identifier in use was drawn from the counter.
\<close>

definition wf_db :: "db \<Rightarrow> bool" where
  "wf_db s =
     (distinct (map d_id (db_days s)) \<and>
      (\<forall>d \<in> set (db_days s). d_id d < db_next s \<and> d_tripId d < db_next s) \<and>
      (\<forall>t \<in> set (db_trips s). t_id t < db_next s))"

definition db_empty :: db where
  "db_empty = \<lparr>db_trips = [], db_days = [], db_acts = [], db_next = 0\<rparr>"

text \<open>
  Day 19787 of the epoch is 2024-03-05, day 20021 is 2024-10-25. A date string
  \<^verbatim>\<open>YYYY-MM-DD\<close> is read by \<^verbatim>\<open>new Date\<close> as midnight UTC of that date: day number times
  \<open>DAY\<close>.
\<close>

definition body_rome :: "instant \<Rightarrow> instant \<Rightarrow> trip_body" where
  "body_rome s e =
     \<lparr>tb_title = Some ''Rome'', tb_destination = Some ''Italy'',
      tb_startDate = Some s, tb_endDate = Some e,
      tb_budget = Some (Num 1000), tb_currency = Some ''EUR'', tb_coverImage = None\<rparr>"

definition trip_rome :: "nat \<Rightarrow> instant \<Rightarrow> instant \<Rightarrow> trip" where
  "trip_rome i s e =
     \<lparr>t_id = i, t_title = ''Rome'', t_destination = Some ''Italy'',
      t_startDate = s, t_endDate = e,
      t_budget = Some (Num 1000), t_currency = Some ''EUR'', t_coverImage = None\<rparr>"

definition db_two_days :: db where
  "db_two_days =
     \<lparr>db_trips = [trip_rome 0 (19787 * DAY) (19788 * DAY)],
      db_days = [\<lparr>d_id = 1, d_tripId = 0, d_date = 19787 * DAY, d_index = 0\<rparr>,
                 \<lparr>d_id = 2, d_tripId = 0, d_date = 19788 * DAY, d_index = 1\<rparr>],
      db_acts = [\<lparr>a_id = 3, a_dayId = 2, a_type = ''food'', a_title = ''Lunch'',
                  a_description = None, a_location = Some ''Trastevere'',
                  a_startTime = Some (19788 * DAY + 12 * HOUR), a_endTime = None,
                  a_cost = Some (Num 30), a_currency = Some ''EUR'', a_images = None,
                  a_details = None\<rparr>],
      db_next = 4\<rparr>"

text \<open>A Trip from 2024-10-25 to 2024-10-26 with its two Days, and a dinner on the second.\<close>

definition db_october :: db where
  "db_october =
     \<lparr>db_trips = [trip_rome 0 (20021 * DAY) (20022 * DAY)],
      db_days = [\<lparr>d_id = 1, d_tripId = 0, d_date = 20021 * DAY, d_index = 0\<rparr>,
                 \<lparr>d_id = 2, d_tripId = 0, d_date = 20022 * DAY, d_index = 1\<rparr>],
      db_acts = [\<lparr>a_id = 3, a_dayId = 2, a_type = ''food'', a_title = ''Dinner'',
                  a_description = None, a_location = None,
                  a_startTime = Some (20022 * DAY + 18 * HOUR), a_endTime = None,
                  a_cost = Some (Num 40), a_currency = Some ''EUR'', a_images = None,
                  a_details = None\<rparr>],
      db_next = 4\<rparr>"

definition body_visit :: "nat \<Rightarrow> instant \<Rightarrow> activity_body" where
  "body_visit dayId st =
     \<lparr>ab_dayId = Some dayId, ab_type = ''activity'', ab_title = ''Colosseum'',
      ab_description = None, ab_location = None, ab_startTime = Some st, ab_endTime = None,
      ab_cost = Some (Num 18), ab_currency = Some ''EUR'', ab_images = None,
      ab_details = None\<rparr>"

definition patch_time :: "nat \<Rightarrow> instant \<Rightarrow> activity_patch" where
  "patch_time i t =
     \<lparr>ap_id = Some i, ap_dayId = None, ap_type = None, ap_title = None, ap_description = None,
      ap_location = None, ap_startTime = Some (Some t), ap_cost = None, ap_currency = None,
      ap_images = None\<rparr>"

text \<open>America/Phoenix keeps UTC-7 all year; a server in UTC has offset 0.\<close>

definition america_phoenix :: zone where
  "america_phoenix = fixed_zone (- 7 * HOUR)"

definition utc :: zone where
  "utc = fixed_zone 0"

subsection \<open>The preprocessing as the specification words it\<close>

text \<open>
  Days without Activities are dropped; within a Day the Activities with a
  \<^verbatim>\<open>startTime\<close> come first, in a stable ascending sort by it (\<open>sort_key\<close> keeps equal
  keys in their original order), and the Activities without one follow in their
  original order.
\<close>

definition timed :: "activity \<Rightarrow> bool" where
  "timed a = (a_startTime a \<noteq> None)"

definition start_of :: "activity \<Rightarrow> instant" where
  "start_of a = (case a_startTime a of None \<Rightarrow> 0 | Some t \<Rightarrow> t)"

definition common_preprocessing :: "ctrip \<Rightarrow> (cday \<times> activity list) list" where
  "common_preprocessing trip =
     map (\<lambda>day. (day, sort_key start_of (filter timed (cd_activities day)) @
                        filter (\<lambda>a. \<not> timed a) (cd_activities day)))
       (filter (\<lambda>day. cd_activities day \<noteq> []) (ct_days trip))"

text \<open>The rows of a sectioned rendering, and the titles a JSON document lists per Day.\<close>

definition flat_rows :: "(cday \<times> activity list) list \<Rightarrow> (cday \<times> activity) list" where
  "flat_rows secs = concat (map (\<lambda>(day, acts). map (\<lambda>act. (day, act)) acts) secs)"

definition json_sections :: "jdoc \<Rightarrow> (instant \<times> string list) list" where
  "json_sections doc =
     (case jd_days doc of
        None \<Rightarrow> []
      | Some ds \<Rightarrow>
          map (\<lambda>jd. (jy_date jd, case jy_activities jd of None \<Rightarrow> [] | Some xs \<Rightarrow> map ja_title xs)) ds)"

subsection \<open>What the language asks of a sort\<close>

text \<open>
  A comparator is consistent on a set of values when it is reflexive and symmetric in
  its zero answers and transitive in its zero, negative and positive answers. For such
  a comparator the array that \<^verbatim>\<open>sort\<close> returns is a rearrangement of the array it was
  given, no element stands before one that compares less than it, and elements that
  compare equal keep their order. For a comparator that is not consistent on the
  elements of the array the order is left to the engine.
\<close>

definition consistent_on :: "('a \<Rightarrow> 'a \<Rightarrow> int) \<Rightarrow> 'a set \<Rightarrow> bool" where
  "consistent_on cmp S =
     ((\<forall>a \<in> S. cmp a a = 0) \<and>
      (\<forall>a \<in> S. \<forall>b \<in> S. cmp a b = 0 \<longrightarrow> cmp b a = 0) \<and>
      (\<forall>a \<in> S. \<forall>b \<in> S. \<forall>c \<in> S. cmp a b = 0 \<and> cmp b c = 0 \<longrightarrow> cmp a c = 0) \<and>
      (\<forall>a \<in> S. \<forall>b \<in> S. \<forall>c \<in> S. cmp a b < 0 \<and> cmp b c < 0 \<longrightarrow> cmp a c < 0) \<and>
      (\<forall>a \<in> S. \<forall>b \<in> S. \<forall>c \<in> S. cmp a b > 0 \<and> cmp b c > 0 \<longrightarrow> cmp a c > 0))"

definition sorted_by :: "('a \<Rightarrow> 'a \<Rightarrow> int) \<Rightarrow> 'a list \<Rightarrow> 'a list \<Rightarrow> bool" where
  "sorted_by cmp xs ys =
     (mset ys = mset xs \<and>
      sorted_wrt (\<lambda>a b. \<not> cmp b a < 0) ys \<and>
      (\<forall>a \<in> set xs. filter (\<lambda>b. cmp a b = 0) ys = filter (\<lambda>b. cmp a b = 0) xs))"

definition conforming :: "'a array_sort \<Rightarrow> ('a \<Rightarrow> 'a \<Rightarrow> int) \<Rightarrow> bool" where
  "conforming srt cmp = (\<forall>xs. consistent_on cmp (set xs) \<longrightarrow> sorted_by cmp xs (srt cmp xs))"

text \<open>
  Two sorts an engine may have for short arrays, both insertion sorts. The first asks
  the comparator about the new element and a placed one, and puts the new element
  before the first placed element that it compares less than. The second asks about a
  placed element and the new one, and puts the new element before the first placed
  element that compares greater than it.
\<close>

fun insert_sorted :: "('a \<Rightarrow> 'a \<Rightarrow> int) \<Rightarrow> 'a \<Rightarrow> 'a list \<Rightarrow> 'a list" where
  "insert_sorted cmp x [] = [x]"
| "insert_sorted cmp x (y # ys) =
     (if cmp x y < 0 then x # y # ys else y # insert_sorted cmp x ys)"

definition insertion_sort :: "'a array_sort" where
  "insertion_sort cmp xs = foldl (\<lambda>acc x. insert_sorted cmp x acc) [] xs"

fun insert_before :: "('a \<Rightarrow> 'a \<Rightarrow> int) \<Rightarrow> 'a \<Rightarrow> 'a list \<Rightarrow> 'a list" where
  "insert_before cmp x [] = [x]"
| "insert_before cmp x (y # ys) =
     (if cmp y x > 0 then x # y # ys else y # insert_before cmp x ys)"

definition insertion_sort_swapped :: "'a array_sort" where
  "insertion_sort_swapped cmp xs = foldl (\<lambda>acc x. insert_before cmp x acc) [] xs"

definition act_at :: "nat \<Rightarrow> nat \<Rightarrow> string \<Rightarrow> instant option \<Rightarrow> activity" where
  "act_at i dayId title st =
     \<lparr>a_id = i, a_dayId = dayId, a_type = ''activity'', a_title = title, a_description = None,
      a_location = None, a_startTime = st, a_endTime = None, a_cost = Some (Num 10),
      a_currency = Some ''EUR'', a_images = None, a_details = None\<rparr>"

definition day_sample :: cday where
  "day_sample =
     \<lparr>cd_id = 2, cd_date = 19788 * DAY, cd_index = 1,
      cd_activities =
        [act_at 4 2 ''Dinner'' (Some (19788 * DAY + 19 * HOUR)),
         act_at 5 2 ''Museum'' (Some (19788 * DAY + 10 * HOUR)),
         act_at 6 2 ''Coffee'' (Some (19788 * DAY + 10 * HOUR))]\<rparr>"

definition trip_sample :: ctrip where
  "trip_sample =
     \<lparr>ct_id = 0, ct_title = ''Rome'', ct_destination = ''Italy'',
      ct_startDate = 19787 * DAY, ct_endDate = 19788 * DAY,
      ct_budget = Some (Num 1000), ct_currency = Some ''EUR'',
      ct_days = [\<lparr>cd_id = 1, cd_date = 19787 * DAY, cd_index = 0, cd_activities = []\<rparr>,
                 day_sample]\<rparr>"

text \<open>A stroll and a nap without start time, and a museum visit at 10:00 between them.\<close>

definition acts_untimed :: "activity list" where
  "acts_untimed =
     [act_at 7 3 ''Stroll'' None,
      act_at 8 3 ''Museum'' (Some (19789 * DAY + 10 * HOUR)),
      act_at 9 3 ''Nap'' None]"

subsection \<open>Notions for the reconciliation and the import\<close>

text \<open>A Day lies outside the range \<open>[a, b]\<close>: the test of the first loop.\<close>

definition outside :: "instant \<Rightarrow> instant \<Rightarrow> day \<Rightarrow> bool" where
  "outside a b d = (d_date d < a \<or> d_date d > b)"







subsection \<open>Notions for the reconciliation at a fixed offset\<close>

text \<open>The dates from \<open>c\<close> to \<open>e\<close>, 24 hours apart.\<close>

function date_range :: "instant \<Rightarrow> instant \<Rightarrow> instant list" where
  "date_range c e = (if c \<le> e then c # date_range (c + DAY) e else [])"
  by pat_completeness auto
termination
  by (relation "measure (\<lambda>(c, e). nat (e - c + 1))") (auto simp: DAY_def)

declare date_range.simps [simp del]

text \<open>
  The rows the second loop creates, in order: one for each new date whose key is not
  in \<^verbatim>\<open>existingDaysByDate\<close>, with the loop counter as index and the store's next
  identifiers.
\<close>

fun created_rows :: "(int \<rightharpoonup> day) \<Rightarrow> nat \<Rightarrow> instant list \<Rightarrow> nat \<Rightarrow> nat \<Rightarrow> day list" where
  "created_rows ex tid [] i n = []"
| "created_rows ex tid (nd # nds) i n =
     (case ex (dateKey nd) of
        None \<Rightarrow> \<lparr>d_id = n, d_tripId = tid, d_date = nd, d_index = i\<rparr> #
                  created_rows ex tid nds (Suc i) (Suc n)
      | Some dy \<Rightarrow> created_rows ex tid nds (Suc i) n)"

text \<open>
  The Days of a Trip are calendar dates: instants at UTC midnight, one Day per date.
\<close>

definition calendar_days :: "day list \<Rightarrow> bool" where
  "calendar_days ds = (list_all (\<lambda>d. DAY dvd d_date d) ds \<and> distinct (map d_date ds))"

text \<open>
  The index the second loop gives a Day of the Trip dated on or after \<open>c\<close>, when the
  counter is \<open>i\<close> at \<open>c\<close>: \<open>i\<close> plus the number of days from \<open>c\<close>.
\<close>

definition reindex :: "nat \<Rightarrow> instant \<Rightarrow> nat \<Rightarrow> day \<Rightarrow> day" where
  "reindex tid c i d =
     (if d_tripId d = tid \<and> c \<le> d_date d
      then d\<lparr>d_index := i + nat ((d_date d - c) div DAY)\<rparr> else d)"

text \<open>
  The store after a reconciliation that runs to its end with 24-hour steps, written
  out: the Days of the Trip outside the range are gone with their Activities, the
  remaining Days of the Trip carry their new index, the created rows follow.
\<close>

definition reconciled :: "nat \<Rightarrow> instant \<Rightarrow> instant \<Rightarrow> db \<Rightarrow> db" where
  "reconciled tid a b s =
     (let cur = filter (\<lambda>d. d_tripId d = tid) (db_days s);
          cr = created_rows (existingDaysByDate cur) tid (date_range a b) 0 (db_next s)
      in s\<lparr>db_days := map (reindex tid a 0)
                 (filter (\<lambda>d. \<not> (d_tripId d = tid \<and> outside a b d)) (db_days s)) @ cr,
           db_acts := filter (\<lambda>x. a_dayId x \<notin>
                 d_id ` {d \<in> set (db_days s). d_tripId d = tid \<and> outside a b d}) (db_acts s),
           db_next := db_next s + length cr\<rparr>)"

section \<open>Properties\<close>

subsection \<open>Trip creation\<close>

lemma daysToCreate_done: "e < c \<Longrightarrow> daysToCreate z c e i = Some []"
  by (subst daysToCreate.simps) simp

lemma daysToCreate_step:
  "c \<le> e \<Longrightarrow> daysToCreate z (setDate_next z c) e (Suc i) = Some rest \<Longrightarrow>
   daysToCreate z c e i = Some ((c, i) # rest)"
  by (subst daysToCreate.simps) simp

lemma create_days_eq:
  "create_days tid ps s =
     s\<lparr>db_days := db_days s @
          map (\<lambda>(k, (dt, i)). \<lparr>d_id = k, d_tripId = tid, d_date = dt, d_index = i\<rparr>)
            (enumerate (db_next s) ps),
       db_next := db_next s + length ps\<rparr>"
proof (induction ps arbitrary: s)
  case Nil
  show ?case by simp
next
  case (Cons p ps)
  obtain dt i where p: "p = (dt, i)" by (cases p)
  show ?case unfolding p by (simp add: Cons.IH day_create_def)
qed

lemma POST_trip_rows:
  assumes "tb_title body = Some title" "title \<noteq> []"
      "tb_startDate body = Some s" "tb_endDate body = Some e"
    and "daysToCreate z s e 0 = Some ps"
  shows "POST_trip z st body =
     (let tr = \<lparr>t_id = db_next st, t_title = title,
                      t_destination = tb_destination body,
                      t_startDate = s, t_endDate = e,
                      t_budget = parse_opt (tb_budget body),
                      t_currency = tb_currency body, t_coverImage = tb_coverImage body\<rparr>;
          s2 = create_days (db_next st) ps
                 (st\<lparr>db_trips := db_trips st @ [tr], db_next := Suc (db_next st)\<rparr>)
      in Some (Ok (tr, filter (\<lambda>d. d_tripId d = db_next st) (db_days s2)), s2))"
  using assms by (simp add: POST_trip_def Let_def)

text \<open>
  Claim C10. Creating a Trip whose start is after its end is answered like any other
  creation, in every time zone of the server: the Trip is stored with the two dates as
  given, no Day is created and the Trip owns none.
\<close>

theorem trip_creation_inverted_range:
  assumes "wf_db st"
    and "tb_title body = Some title" "title \<noteq> []"
    and "tb_startDate body = Some s" "tb_endDate body = Some e"
    and "e < s"
  shows "\<exists>tr st'. POST_trip z st body = Some (Ok (tr, []), st') \<and>
           t_startDate tr = s \<and> t_endDate tr = e \<and>
           db_trips st' = db_trips st @ [tr] \<and>
           db_days st' = db_days st \<and>
           db_acts st' = db_acts st \<and>
           filter (\<lambda>d. d_tripId d = t_id tr) (db_days st') = []"
proof -
  define tr where "tr = \<lparr>t_id = db_next st, t_title = title,
                      t_destination = tb_destination body,
                      t_startDate = s, t_endDate = e,
                      t_budget = parse_opt (tb_budget body),
                      t_currency = tb_currency body, t_coverImage = tb_coverImage body\<rparr>"
  define st' where "st' = st\<lparr>db_trips := db_trips st @ [tr], db_next := Suc (db_next st)\<rparr>"
  have old: "filter (\<lambda>d. d_tripId d = db_next st) (db_days st) = []"
    using assms(1) by (auto simp: wf_db_def filter_empty_conv)
  have "POST_trip z st body = Some (Ok (tr, []), st')"
    unfolding POST_trip_rows[OF assms(2-5) daysToCreate_done[OF assms(6)]]
    by (simp add: Let_def tr_def st'_def old)
  moreover have "t_startDate tr = s" "t_endDate tr = e" "t_id tr = db_next st"
    by (simp_all add: tr_def)
  moreover have "db_trips st' = db_trips st @ [tr]" "db_days st' = db_days st"
    "db_acts st' = db_acts st"
    by (simp_all add: st'_def)
  ultimately show ?thesis using old by simp
qed

theorem trip_creation_inverted_range_witness:
  "wf_db db_empty \<and> 19787 * DAY < 19789 * DAY \<and>
   (\<exists>tr st'. POST_trip europe_paris_2024 db_empty (body_rome (19789 * DAY) (19787 * DAY)) =
        Some (Ok (tr, []), st') \<and>
      t_startDate tr = 19789 * DAY \<and> t_endDate tr = 19787 * DAY \<and> db_days st' = [])"
proof -
  have wf: "wf_db db_empty" by (simp add: wf_db_def db_empty_def)
  have lt: "19787 * DAY < 19789 * DAY" by (simp add: DAY_def)
  from trip_creation_inverted_range[OF wf _ _ _ _ lt,
      of "body_rome (19789 * DAY) (19787 * DAY)" "''Rome''" europe_paris_2024]
  have "\<exists>tr st'. POST_trip europe_paris_2024 db_empty (body_rome (19789 * DAY) (19787 * DAY)) =
        Some (Ok (tr, []), st') \<and>
      t_startDate tr = 19789 * DAY \<and> t_endDate tr = 19787 * DAY \<and> db_days st' = []"
    by (auto simp: body_rome_def db_empty_def)
  with wf lt show ?thesis by (intro conjI)
qed

text \<open>The steps of \<^verbatim>\<open>setDate\<close> in Paris from 2024-10-26T00:00Z, which is 02:00 there.\<close>

lemma paris_steps:
  "setDate_next europe_paris_2024 (20022 * DAY) = 20023 * DAY"
  "setDate_next europe_paris_2024 (20023 * DAY) = 20024 * DAY + HOUR"
  by (simp_all add: setDate_next_def europe_paris_2024_def DAY_def HOUR_def Let_def)

lemma paris_dates:
  "daysToCreate europe_paris_2024 (20022 * DAY) (20024 * DAY) 0 =
     Some [(20022 * DAY, 0), (20023 * DAY, 1)]"
proof -
  have le: "20022 * DAY \<le> 20024 * DAY" "20023 * DAY \<le> 20024 * DAY"
    "20024 * DAY < 20024 * DAY + HOUR"
    by (simp_all add: DAY_def HOUR_def)
  have 3: "daysToCreate europe_paris_2024 (20024 * DAY + HOUR) (20024 * DAY) (Suc (Suc 0)) = Some []"
    by (rule daysToCreate_done[OF le(3)])
  have 2: "daysToCreate europe_paris_2024 (20023 * DAY) (20024 * DAY) (Suc 0) =
      Some [(20023 * DAY, Suc 0)]"
    by (rule daysToCreate_step[OF le(2)]) (simp only: paris_steps 3)
  have "daysToCreate europe_paris_2024 (20022 * DAY) (20024 * DAY) 0 =
      Some [(20022 * DAY, 0), (20023 * DAY, Suc 0)]"
    by (rule daysToCreate_step[OF le(1)]) (simp only: paris_steps 2)
  then show ?thesis by simp
qed

text \<open>
  Claim C2 at a server in Paris: a Trip from 2024-10-26 to 2024-10-28, both dates given
  as \<^verbatim>\<open>YYYY-MM-DD\<close>. The range has three calendar dates and \<open>(e - s)\<close> is two days, so
  the claim asks for three Days. The handler creates two, for 2024-10-26 and 2024-10-27:
  the clocks go back in the night to 2024-10-27, the second step of \<^verbatim>\<open>setDate\<close> lands on
  2024-10-28T01:00Z, and that is after the end.
\<close>

theorem trip_creation_clock_change:
  "POST_trip europe_paris_2024 db_empty (body_rome (20022 * DAY) (20024 * DAY)) =
     Some (Ok (trip_rome 0 (20022 * DAY) (20024 * DAY),
               [\<lparr>d_id = 1, d_tripId = 0, d_date = 20022 * DAY, d_index = 0\<rparr>,
                \<lparr>d_id = 2, d_tripId = 0, d_date = 20023 * DAY, d_index = 1\<rparr>]),
           \<lparr>db_trips = [trip_rome 0 (20022 * DAY) (20024 * DAY)],
            db_days = [\<lparr>d_id = 1, d_tripId = 0, d_date = 20022 * DAY, d_index = 0\<rparr>,
                       \<lparr>d_id = 2, d_tripId = 0, d_date = 20023 * DAY, d_index = 1\<rparr>],
            db_acts = [], db_next = 3\<rparr>)"
proof -
  have b: "tb_title (body_rome (20022 * DAY) (20024 * DAY)) = Some ''Rome''" "''Rome'' \<noteq> []"
    "tb_startDate (body_rome (20022 * DAY) (20024 * DAY)) = Some (20022 * DAY)"
    "tb_endDate (body_rome (20022 * DAY) (20024 * DAY)) = Some (20024 * DAY)"
    by (simp_all add: body_rome_def)
  show ?thesis
    unfolding POST_trip_rows[OF b paris_dates]
    by (simp add: Let_def db_empty_def body_rome_def trip_rome_def day_create_def parse_opt_def)
qed

text \<open>The same request at a server in UTC gives the three Days.\<close>

lemma utc_steps: "setDate_next utc t = t + DAY"
  by (simp add: setDate_next_def utc_def fixed_zone_def Let_def)

lemma utc_dates:
  "daysToCreate utc (20022 * DAY) (20024 * DAY) 0 =
     Some [(20022 * DAY, 0), (20023 * DAY, 1), (20024 * DAY, 2)]"
proof -
  have le: "20022 * DAY \<le> 20024 * DAY" "20023 * DAY \<le> 20024 * DAY"
    "20024 * DAY \<le> 20024 * DAY" "20024 * DAY < 20024 * DAY + DAY"
    by (simp_all add: DAY_def)
  have st: "20022 * DAY + DAY = 20023 * DAY" "20023 * DAY + DAY = 20024 * DAY"
    by simp_all
  have 4: "daysToCreate utc (20024 * DAY + DAY) (20024 * DAY) (Suc (Suc (Suc 0))) = Some []"
    by (rule daysToCreate_done[OF le(4)])
  have 3: "daysToCreate utc (20024 * DAY) (20024 * DAY) (Suc (Suc 0)) =
      Some [(20024 * DAY, Suc (Suc 0))]"
    by (rule daysToCreate_step[OF le(3)]) (simp only: utc_steps 4)
  have 2: "daysToCreate utc (20023 * DAY) (20024 * DAY) (Suc 0) =
      Some [(20023 * DAY, Suc 0), (20024 * DAY, Suc (Suc 0))]"
    by (rule daysToCreate_step[OF le(2)]) (simp only: utc_steps st 3)
  have "daysToCreate utc (20022 * DAY) (20024 * DAY) 0 =
      Some [(20022 * DAY, 0), (20023 * DAY, Suc 0), (20024 * DAY, Suc (Suc 0))]"
    by (rule daysToCreate_step[OF le(1)]) (simp only: utc_steps st 2)
  then show ?thesis by (simp add: numeral_2_eq_2)
qed

lemma trip_creation_utc:
  "POST_trip utc db_empty (body_rome (20022 * DAY) (20024 * DAY)) =
     Some (Ok (trip_rome 0 (20022 * DAY) (20024 * DAY),
               [\<lparr>d_id = 1, d_tripId = 0, d_date = 20022 * DAY, d_index = 0\<rparr>,
                \<lparr>d_id = 2, d_tripId = 0, d_date = 20023 * DAY, d_index = 1\<rparr>,
                \<lparr>d_id = 3, d_tripId = 0, d_date = 20024 * DAY, d_index = 2\<rparr>]),
           \<lparr>db_trips = [trip_rome 0 (20022 * DAY) (20024 * DAY)],
            db_days = [\<lparr>d_id = 1, d_tripId = 0, d_date = 20022 * DAY, d_index = 0\<rparr>,
                       \<lparr>d_id = 2, d_tripId = 0, d_date = 20023 * DAY, d_index = 1\<rparr>,
                       \<lparr>d_id = 3, d_tripId = 0, d_date = 20024 * DAY, d_index = 2\<rparr>],
            db_acts = [], db_next = 4\<rparr>)"
proof -
  have b: "tb_title (body_rome (20022 * DAY) (20024 * DAY)) = Some ''Rome''" "''Rome'' \<noteq> []"
    "tb_startDate (body_rome (20022 * DAY) (20024 * DAY)) = Some (20022 * DAY)"
    "tb_endDate (body_rome (20022 * DAY) (20024 * DAY)) = Some (20024 * DAY)"
    by (simp_all add: body_rome_def)
  show ?thesis
    unfolding POST_trip_rows[OF b utc_dates]
    by (simp add: Let_def db_empty_def body_rome_def trip_rome_def day_create_def parse_opt_def)
qed

text \<open>
  At a server whose zone keeps one offset, each step is 24 hours and the loop ends: a
  Trip from \<open>s\<close> to \<open>e\<close>, \<open>s \<le> e\<close>, gets \<open>(e - s) div DAY + 1\<close> Days, the \<open>k\<close>-th with
  index \<open>k\<close> and the date \<open>s\<close> plus \<open>k\<close> days.
\<close>

lemma fixed_zone_step: "setDate_next (fixed_zone off) t = t + DAY"
  by (simp add: setDate_next_def fixed_zone_def Let_def)

lemma daysToCreate_fixed_zone:
  "daysToCreate (fixed_zone off) c e i =
     Some (map (\<lambda>k. (c + int k * DAY, i + k)) [0..<nat ((e - c) div DAY + 1)])"
proof (induction "nat (e - c + 1)" arbitrary: c i rule: less_induct)
  case less
  show ?case
  proof (cases "c \<le> e")
    case False
    then have "(e - c) div DAY < 0" by (simp add: DAY_def)
    then have "nat ((e - c) div DAY + 1) = 0" by simp
    with False show ?thesis by (simp add: daysToCreate_done)
  next
    case True
    have m: "nat (e - (c + DAY) + 1) < nat (e - c + 1)" using True by (simp add: DAY_def)
    have d: "(e - (c + DAY)) div DAY = (e - c) div DAY - 1"
      by (simp add: DAY_def)
    have nn: "0 \<le> (e - c) div DAY" using True by (simp add: DAY_def)
    then have n: "nat ((e - c) div DAY + 1) = Suc (nat ((e - c) div DAY))" by simp
    have ih: "daysToCreate (fixed_zone off) (setDate_next (fixed_zone off) c) e (Suc i) =
        Some (map (\<lambda>k. (c + DAY + int k * DAY, Suc i + k)) [0..<nat ((e - c) div DAY)])"
      using less[OF m, of "Suc i"] d by (simp add: fixed_zone_step)
    have "daysToCreate (fixed_zone off) c e i =
        Some ((c, i) # map (\<lambda>k. (c + DAY + int k * DAY, Suc i + k)) [0..<nat ((e - c) div DAY)])"
      by (rule daysToCreate_step[OF True ih])
    also have "(c, i) # map (\<lambda>k. (c + DAY + int k * DAY, Suc i + k)) [0..<nat ((e - c) div DAY)] =
        map (\<lambda>k. (c + int k * DAY, i + k)) [0..<Suc (nat ((e - c) div DAY))]"
      unfolding upt_conv_Cons[OF zero_less_Suc]
      by (simp add: map_Suc_upt[symmetric] algebra_simps del: upt_Suc)
    finally show ?thesis using n by simp
  qed
qed

lemma enum_rows:
  "map (\<lambda>d. (d_date d, d_index d))
     (map (\<lambda>(k, (dt, i)). \<lparr>d_id = k, d_tripId = tid, d_date = dt, d_index = i\<rparr>)
            (enumerate n ps)) = ps"
  by (induction ps arbitrary: n) auto

lemma rows_trip:
  "list_all (\<lambda>d. d_tripId d = tid)
     (map (\<lambda>(k, (dt, i)). \<lparr>d_id = k, d_tripId = tid, d_date = dt, d_index = i\<rparr>)
            (enumerate n ps))"
  by (auto simp: list_all_iff)

lemma trip_creation_fixed_offset:
  assumes wf: "wf_db st"
    and body: "tb_title body = Some title" "title \<noteq> []"
      "tb_startDate body = Some s" "tb_endDate body = Some e"
    and le: "s \<le> e"
  shows "\<exists>tr ds st'. POST_trip (fixed_zone off) st body = Some (Ok (tr, ds), st') \<and>
           db_days st' = db_days st @ ds \<and>
           list_all (\<lambda>d. d_tripId d = t_id tr) ds \<and>
           length ds = nat ((e - s) div DAY) + 1 \<and>
           map d_index ds = [0..<length ds] \<and>
           map d_date ds = map (\<lambda>k. s + int k * DAY) [0..<length ds]"
proof -
  define ps where "ps = map (\<lambda>k. (s + int k * DAY, k)) [0..<nat ((e - s) div DAY + 1)]"
  define tr where "tr = \<lparr>t_id = db_next st, t_title = title,
                      t_destination = tb_destination body,
                      t_startDate = s, t_endDate = e,
                      t_budget = parse_opt (tb_budget body),
                      t_currency = tb_currency body, t_coverImage = tb_coverImage body\<rparr>"
  define ds where "ds = map (\<lambda>(k, (dt, i)). \<lparr>d_id = k, d_tripId = db_next st, d_date = dt, d_index = i\<rparr>)
            (enumerate (Suc (db_next st)) ps)"
  define st' where "st' = create_days (db_next st) ps
                 (st\<lparr>db_trips := db_trips st @ [tr], db_next := Suc (db_next st)\<rparr>)"
  have dc: "daysToCreate (fixed_zone off) s e 0 = Some ps"
    unfolding ps_def daysToCreate_fixed_zone by simp
  have old: "filter (\<lambda>d. d_tripId d = db_next st) (db_days st) = []"
    using wf by (auto simp: wf_db_def filter_empty_conv)
  have all: "list_all (\<lambda>d. d_tripId d = db_next st) ds"
    unfolding ds_def by (rule rows_trip)
  then have new: "filter (\<lambda>d. d_tripId d = db_next st) ds = ds"
    by (simp add: filter_id_conv list_all_iff)
  have rows: "map (\<lambda>d. (d_date d, d_index d)) ds = ps"
    unfolding ds_def by (rule enum_rows)
  have days': "db_days st' = db_days st @ ds"
    unfolding st'_def ds_def by (simp add: create_days_eq)
  have "POST_trip (fixed_zone off) st body =
      Some (Ok (tr, filter (\<lambda>d. d_tripId d = db_next st) (db_days st')), st')"
    unfolding POST_trip_rows[OF body dc] tr_def st'_def by (simp only: Let_def)
  then have post: "POST_trip (fixed_zone off) st body = Some (Ok (tr, ds), st')"
    by (simp add: days' old new)
  have own: "list_all (\<lambda>d. d_tripId d = t_id tr) ds" using all by (simp add: tr_def)
  have nn: "0 \<le> (e - s) div DAY" using le by (simp add: DAY_def)
  have "length (map (\<lambda>d. (d_date d, d_index d)) ds) = nat ((e - s) div DAY + 1)"
    unfolding rows ps_def by simp
  then have len: "length ds = nat ((e - s) div DAY + 1)" by simp
  then have len': "length ds = nat ((e - s) div DAY) + 1" using nn by simp
  have "map snd (map (\<lambda>d. (d_date d, d_index d)) ds) = [0..<length ds]"
    unfolding rows ps_def len by (simp add: comp_def)
  then have idx: "map d_index ds = [0..<length ds]" by (simp add: comp_def)
  have "map fst (map (\<lambda>d. (d_date d, d_index d)) ds) = map (\<lambda>k. s + int k * DAY) [0..<length ds]"
    unfolding rows ps_def len by (simp add: comp_def)
  then have dts: "map d_date ds = map (\<lambda>k. s + int k * DAY) [0..<length ds]"
    by (simp add: comp_def)
  show ?thesis
    using post days' own len' idx dts
    by (intro exI[of _ tr] exI[of _ ds] exI[of _ st'] conjI)
qed

subsection \<open>Activity creation and update\<close>

lemma find_Some_mem:
  "find P xs = Some x \<Longrightarrow> x \<in> set xs \<and> P x"
  by (induction xs) (auto split: if_splits)

lemma POST_activity_at:
  assumes "ab_dayId body = Some did" "ab_startTime body = Some st"
    and "assign_day z s did st = target" "target \<in> d_id ` set (db_days s)"
  shows "\<exists>act s'. POST_activity z s body = (Ok act, s') \<and> a_dayId act = target \<and>
           a_id act = db_next s \<and> a_title act = ab_title body \<and> a_type act = ab_type body \<and>
           a_startTime act = Some st \<and> a_cost act = parse_opt (ab_cost body) \<and>
           db_acts s' = db_acts s @ [act] \<and> db_days s' = db_days s \<and> db_trips s' = db_trips s"
  using assms by (simp add: POST_activity_def activity_create_def Let_def)

text \<open>
  What the handler does, in the server's local dates: when the local date of the start
  time \<open>st\<close> differs from the local date of the Day \<open>cur\<close> that was specified, the
  Activity goes to the first Day of the Trip whose local date is that of \<open>st\<close>, and
  stays on \<open>cur\<close> when the Trip has none.
\<close>

lemma assignment_by_local_date:
  assumes "ab_dayId body = Some did" "ab_startTime body = Some st"
    and "find (\<lambda>d. d_id d = did) (db_days s) = Some cur"
    and "local_midnight z st \<noteq> local_midnight z (d_date cur)"
  shows "(\<forall>correct.
            find (\<lambda>d. local_midnight z (d_date d) = local_midnight z st)
              (filter (\<lambda>d. d_tripId d = d_tripId cur) (db_days s)) = Some correct \<longrightarrow>
            (\<exists>act s'. POST_activity z s body = (Ok act, s') \<and>
               a_dayId act = d_id correct \<and>
               a_startTime act = Some st \<and> a_title act = ab_title body \<and>
               db_acts s' = db_acts s @ [act] \<and> db_days s' = db_days s)) \<and>
         ((\<forall>d \<in> set (db_days s). d_tripId d = d_tripId cur \<longrightarrow>
              local_midnight z (d_date d) \<noteq> local_midnight z st) \<longrightarrow>
            (\<exists>act s'. POST_activity z s body = (Ok act, s') \<and>
               a_dayId act = did \<and>
               a_startTime act = Some st \<and> a_title act = ab_title body \<and>
               db_acts s' = db_acts s @ [act] \<and> db_days s' = db_days s))"
proof (intro conjI allI impI)
  fix correct
  assume f: "find (\<lambda>d. local_midnight z (d_date d) = local_midnight z st)
              (filter (\<lambda>d. d_tripId d = d_tripId cur) (db_days s)) = Some correct"
  from find_Some_mem[OF f] have c: "correct \<in> set (db_days s)" by auto
  have a: "assign_day z s did st = d_id correct"
    using assms(3,4) f by (simp add: assign_day_def Let_def)
  from POST_activity_at[OF assms(1,2) a] c
  show "\<exists>act s'. POST_activity z s body = (Ok act, s') \<and>
               a_dayId act = d_id correct \<and>
               a_startTime act = Some st \<and> a_title act = ab_title body \<and>
               db_acts s' = db_acts s @ [act] \<and> db_days s' = db_days s" by auto
next
  assume n: "\<forall>d \<in> set (db_days s). d_tripId d = d_tripId cur \<longrightarrow>
              local_midnight z (d_date d) \<noteq> local_midnight z st"
  then have f: "find (\<lambda>d. local_midnight z (d_date d) = local_midnight z st)
              (filter (\<lambda>d. d_tripId d = d_tripId cur) (db_days s)) = None"
    by (auto simp: find_None_iff)
  have a: "assign_day z s did st = did"
    using assms(3,4) f by (simp add: assign_day_def Let_def)
  from find_Some_mem[OF assms(3)] have "did \<in> d_id ` set (db_days s)" by auto
  from POST_activity_at[OF assms(1,2) a this]
  show "\<exists>act s'. POST_activity z s body = (Ok act, s') \<and>
               a_dayId act = did \<and>
               a_startTime act = Some st \<and> a_title act = ab_title body \<and>
               db_acts s' = db_acts s @ [act] \<and> db_days s' = db_days s" by blast
qed

text \<open>The instance the claim names, at a server in UTC: the Activity goes to Day 1.\<close>

lemma activity_assignment_utc:
  "POST_activity utc db_two_days (body_visit 2 (19787 * DAY + 10 * HOUR)) =
     (Ok \<lparr>a_id = 4, a_dayId = 1, a_type = ''activity'', a_title = ''Colosseum'',
           a_description = None, a_location = None,
           a_startTime = Some (19787 * DAY + 10 * HOUR), a_endTime = None,
           a_cost = Some (Num 18), a_currency = Some ''EUR'', a_images = None,
           a_details = None\<rparr>,
      db_two_days\<lparr>db_acts := db_acts db_two_days @
          [\<lparr>a_id = 4, a_dayId = 1, a_type = ''activity'', a_title = ''Colosseum'',
            a_description = None, a_location = None,
            a_startTime = Some (19787 * DAY + 10 * HOUR), a_endTime = None,
            a_cost = Some (Num 18), a_currency = Some ''EUR'', a_images = None,
            a_details = None\<rparr>],
        db_next := 5\<rparr>)"
  by (simp add: POST_activity_def assign_day_def activity_create_def body_visit_def
      db_two_days_def local_midnight_def utc_def fixed_zone_def parse_opt_def
      stringify_images_def Let_def DAY_def HOUR_def)

text \<open>
  Claim C3 at a server in Phoenix (UTC-7). The Trip has the Days of 2024-03-05 (id 1)
  and 2024-03-06 (id 2), dated at midnight UTC as the creation of a Trip dates them. An
  Activity is created under Day 2 with the start time 2024-03-05T10:00 of the server,
  which is 17:00Z. The claim attaches it to Day 1. The handler leaves it on Day 2: at
  the server Day 2 begins at 17:00 of 2024-03-05, so the two local dates are equal and
  no other Day is looked for. The same happens for 2024-03-05T10:00Z.
\<close>

theorem activity_assignment_west_of_utc:
  "local_midnight america_phoenix (19787 * DAY + 17 * HOUR) = 19787 * DAY + 7 * HOUR \<and>
   local_midnight america_phoenix (19788 * DAY) = 19787 * DAY + 7 * HOUR \<and>
   local_midnight america_phoenix (19787 * DAY) = 19786 * DAY + 7 * HOUR \<and>
   POST_activity america_phoenix db_two_days (body_visit 2 (19787 * DAY + 17 * HOUR)) =
     (Ok \<lparr>a_id = 4, a_dayId = 2, a_type = ''activity'', a_title = ''Colosseum'',
           a_description = None, a_location = None,
           a_startTime = Some (19787 * DAY + 17 * HOUR), a_endTime = None,
           a_cost = Some (Num 18), a_currency = Some ''EUR'', a_images = None,
           a_details = None\<rparr>,
      db_two_days\<lparr>db_acts := db_acts db_two_days @
          [\<lparr>a_id = 4, a_dayId = 2, a_type = ''activity'', a_title = ''Colosseum'',
            a_description = None, a_location = None,
            a_startTime = Some (19787 * DAY + 17 * HOUR), a_endTime = None,
            a_cost = Some (Num 18), a_currency = Some ''EUR'', a_images = None,
            a_details = None\<rparr>],
        db_next := 5\<rparr>) \<and>
   assign_day america_phoenix db_two_days 2 (19787 * DAY + 10 * HOUR) = 2"
  by (simp add: POST_activity_def assign_day_def activity_create_def body_visit_def
      db_two_days_def local_midnight_def america_phoenix_def fixed_zone_def parse_opt_def
      stringify_images_def Let_def DAY_def HOUR_def)

lemma apply_patch_id [simp]: "a_id (apply_patch p x) = a_id x"
  by (simp add: apply_patch_def)

lemma filter_others_map:
  "filter (\<lambda>x. a_id x \<noteq> i) (map (\<lambda>x. if a_id x = i then apply_patch p x else x) xs) =
   filter (\<lambda>x. a_id x \<noteq> i) xs"
  by (induction xs) auto

text \<open>
  Claim C7. An update of an existing Activity that supplies a start time and no
  \<^verbatim>\<open>dayId\<close> succeeds, writes the start time and leaves the Activity on its Day, whatever
  the calendar date of the new start time; no Activity changes its Day, the fields the
  body does not supply keep their values, and the other Activities, the Days and the
  Trips are untouched.
\<close>

theorem activity_update_keeps_day:
  assumes "ap_id p = Some i" "ap_dayId p = None" "ap_startTime p = Some (Some t)"
    and "find (\<lambda>a. a_id a = i) (db_acts s) = Some a"
  shows "\<exists>act s'. PATCH_activity s p = (Ok act, s') \<and>
           a_id act = i \<and> a_dayId act = a_dayId a \<and> a_startTime act = Some t \<and>
           a_endTime act = a_endTime a \<and> a_details act = a_details a \<and>
           (ap_type p = None \<longrightarrow> a_type act = a_type a) \<and>
           (ap_title p = None \<longrightarrow> a_title act = a_title a) \<and>
           (ap_description p = None \<longrightarrow> a_description act = a_description a) \<and>
           (ap_location p = None \<longrightarrow> a_location act = a_location a) \<and>
           (ap_cost p = None \<longrightarrow> a_cost act = a_cost a) \<and>
           (ap_currency p = None \<longrightarrow> a_currency act = a_currency a) \<and>
           (ap_images p = None \<longrightarrow> a_images act = a_images a) \<and>
           map a_id (db_acts s') = map a_id (db_acts s) \<and>
           map a_dayId (db_acts s') = map a_dayId (db_acts s) \<and>
           filter (\<lambda>x. a_id x \<noteq> i) (db_acts s') = filter (\<lambda>x. a_id x \<noteq> i) (db_acts s) \<and>
           act \<in> set (db_acts s') \<and>
           db_days s' = db_days s \<and> db_trips s' = db_trips s"
proof -
  from find_Some_mem[OF assms(4)] have mem: "a \<in> set (db_acts s)" and id: "a_id a = i" by auto
  define s' where "s' = s\<lparr>db_acts := map (\<lambda>x. if a_id x = i then apply_patch p x else x) (db_acts s)\<rparr>"
  have r: "PATCH_activity s p = (Ok (apply_patch p a), s')"
    using assms by (simp add: PATCH_activity_def activity_update_def s'_def)
  have ids: "map a_id (db_acts s') = map a_id (db_acts s)"
    by (simp add: s'_def apply_patch_def comp_def if_distrib cong: if_cong)
  have dayids: "map a_dayId (db_acts s') = map a_dayId (db_acts s)"
    using assms(2) by (simp add: s'_def apply_patch_def comp_def if_distrib cong: if_cong)
  have others: "filter (\<lambda>x. a_id x \<noteq> i) (db_acts s') = filter (\<lambda>x. a_id x \<noteq> i) (db_acts s)"
    unfolding s'_def by (simp add: filter_others_map)
  have "apply_patch p a \<in> set (db_acts s')"
    using mem id by (force simp: s'_def)
  with r ids dayids others show ?thesis
    using assms(2,3) id by (simp add: apply_patch_def s'_def)
qed

text \<open>
  The Lunch of 2024-03-06 (Activity 3 on Day 2) is given a start time on 2024-03-05, a
  date that has a Day of its own (Day 1): it stays on Day 2.
\<close>

theorem activity_update_keeps_day_witness:
  "\<exists>act s'. PATCH_activity db_two_days (patch_time 3 (19787 * DAY + 9 * HOUR)) = (Ok act, s') \<and>
      a_dayId act = 2 \<and> a_startTime act = Some (19787 * DAY + 9 * HOUR) \<and>
      a_title act = ''Lunch'' \<and> a_cost act = Some (Num 30) \<and>
      local_midnight utc (19787 * DAY + 9 * HOUR) = 19787 * DAY \<and>
      db_days s' = db_days db_two_days"
proof -
  let ?a = "\<lparr>a_id = 3, a_dayId = 2, a_type = ''food'', a_title = ''Lunch'',
                  a_description = None, a_location = Some ''Trastevere'',
                  a_startTime = Some (19788 * DAY + 12 * HOUR), a_endTime = None,
                  a_cost = Some (Num 30), a_currency = Some ''EUR'', a_images = None,
                  a_details = None\<rparr>"
  have 1: "find (\<lambda>a. a_id a = 3) (db_acts db_two_days) = Some ?a"
    by (simp add: db_two_days_def)
  have 2: "local_midnight utc (19787 * DAY + 9 * HOUR) = 19787 * DAY"
    by (simp add: local_midnight_def utc_def fixed_zone_def Let_def DAY_def HOUR_def)
  from activity_update_keeps_day[OF _ _ _ 1, of "patch_time 3 (19787 * DAY + 9 * HOUR)" "19787 * DAY + 9 * HOUR"]
  show ?thesis using 2 by (auto simp: patch_time_def)
qed

subsection \<open>Currency conversion\<close>

lemma fallback_own:
  "map_of fallbackEUR ''USD'' = Some (Num (108 / 100))"
  "map_of fallbackEUR ''CHF'' = None"
  "map_of fallbackEUR ''constructor'' = None"
  by (simp_all add: fallbackEUR_def)

lemma fallback_USD: "js_get (getFallbackRates ''EUR'') ''USD'' = Number (Num (108 / 100))"
  by (simp add: getFallbackRates_def js_get_def fallback_own)

lemma fallback_CHF: "js_get (getFallbackRates ''EUR'') ''CHF'' = Undefined"
  by (simp add: getFallbackRates_def js_get_def fallback_own object_prototype_keys_def)

lemma fallback_constructor: "js_get (getFallbackRates ''EUR'') ''constructor'' = Inherited"
  by (simp add: getFallbackRates_def js_get_def fallback_own object_prototype_keys_def)

text \<open>
  Claim C5 as stated does not hold: for a falsy amount and two different currencies
  the function returns 0, which is not the amount when the amount is \<^verbatim>\<open>NaN\<close>.
\<close>

theorem convertCurrency_falsy_counterexample:
  "\<not> truthy NaN \<and> convertCurrency getFallbackRates NaN ''USD'' ''EUR'' \<noteq> NaN"
  by (simp add: convertCurrency_def)

text \<open>
  A source currency that is no key of the table but the name of a member every object
  inherits is not returned unconverted either: the member is truthy and the quotient by
  it is \<^verbatim>\<open>NaN\<close>.
\<close>

lemma convertCurrency_inherited_key:
  "convertCurrency getFallbackRates (Num 100) ''constructor'' ''EUR'' = NaN"
  by (simp add: convertCurrency_def fallback_constructor)

text \<open>
  Claim C5, amended. \<^verbatim>\<open>convertCurrency\<close> returns the amount unchanged when the two
  currencies are equal; otherwise 0 when the amount is falsy (0 or \<^verbatim>\<open>NaN\<close>); otherwise
  the amount divided by the rate of the source currency when the table for the target
  has a truthy rate of its own for it; otherwise the amount unconverted when the rate is
  0 or \<^verbatim>\<open>NaN\<close>, or when the source currency is neither a key of the table nor the name of
  a member every object inherits. With the fallback table, 100 USD are \<open>100 / 1.08\<close> EUR.
  Nothing is said of a source currency named like an inherited member.
\<close>

theorem convertCurrency_cases:
  "(fromCurrency = toCurrency \<longrightarrow> convertCurrency g amount fromCurrency toCurrency = amount) \<and>
   (fromCurrency \<noteq> toCurrency \<and> \<not> truthy amount \<longrightarrow>
      convertCurrency g amount fromCurrency toCurrency = Num 0) \<and>
   (fromCurrency \<noteq> toCurrency \<and> a \<noteq> 0 \<and> g toCurrency fromCurrency = Some (Num r) \<and> r \<noteq> 0 \<longrightarrow>
      convertCurrency g (Num a) fromCurrency toCurrency = Num (a / r)) \<and>
   (fromCurrency \<noteq> toCurrency \<and> truthy amount \<and>
      (g toCurrency fromCurrency = Some (Num 0) \<or> g toCurrency fromCurrency = Some NaN \<or>
       g toCurrency fromCurrency = None \<and> fromCurrency \<notin> set object_prototype_keys) \<longrightarrow>
      convertCurrency g amount fromCurrency toCurrency = amount) \<and>
   convertCurrency g (Num 100) ''USD'' ''USD'' = Num 100 \<and>
   convertCurrency getFallbackRates (Num 100) ''USD'' ''EUR'' = Num (100 / (108 / 100))"
  by (auto simp: convertCurrency_def js_get_def fallback_USD[unfolded js_get_def] Let_def
      split: option.splits)

theorem convertCurrency_cases_witness:
  "convertCurrency getFallbackRates (Num 50) ''GBP'' ''GBP'' = Num 50 \<and>
   convertCurrency getFallbackRates (Num 0) ''USD'' ''EUR'' = Num 0 \<and>
   convertCurrency getFallbackRates NaN ''USD'' ''EUR'' = Num 0 \<and>
   convertCurrency getFallbackRates (Num 54) ''USD'' ''EUR'' = Num 50 \<and>
   convertCurrency getFallbackRates (Num 7) ''CHF'' ''EUR'' = Num 7 \<and>
   convertCurrency (\<lambda>_. [''USD'' \<mapsto> Num 0]) (Num 7) ''USD'' ''EUR'' = Num 7"
proof -
  have 1: "getFallbackRates ''EUR'' ''CHF'' = None"
    by (simp add: getFallbackRates_def fallbackEUR_def)
  have 2: "getFallbackRates ''EUR'' ''USD'' = Some (Num (108 / 100))"
    by (simp add: getFallbackRates_def fallbackEUR_def)
  have 3: "''CHF'' \<notin> set object_prototype_keys"
    by (simp add: object_prototype_keys_def)
  show ?thesis
    using convertCurrency_cases[of "''GBP''" "''GBP''" getFallbackRates "Num 50" 0 0]
      convertCurrency_cases[of "''USD''" "''EUR''" getFallbackRates "Num 0" 0 0]
      convertCurrency_cases[of "''USD''" "''EUR''" getFallbackRates "NaN" 0 0]
      convertCurrency_cases[of "''USD''" "''EUR''" getFallbackRates "Num 54" 54 "108 / 100"]
      convertCurrency_cases[of "''CHF''" "''EUR''" getFallbackRates "Num 7" 0 0]
      convertCurrency_cases[of "''USD''" "''EUR''" "\<lambda>_. [''USD'' \<mapsto> Num 0]" "Num 7" 0 0]
    by (simp add: 1 2 3)
qed

subsection \<open>Export preprocessing\<close>

lemma mset_insert_sorted: "mset (insert_sorted cmp x ys) = add_mset x (mset ys)"
  by (induction ys) auto

lemma set_insert_sorted: "set (insert_sorted cmp x ys) = insert x (set ys)"
  by (induction ys) auto

lemma sorted_insert_sorted:
  fixes key :: "'a \<Rightarrow> 'k::linorder"
  assumes "\<And>y. y \<in> set ys \<Longrightarrow> cmp x y < 0 \<longleftrightarrow> key x < key y" "sorted (map key ys)"
  shows "sorted (map key (insert_sorted cmp x ys))"
  using assms
proof (induction ys)
  case Nil
  show ?case by simp
next
  case (Cons y ys)
  show ?case
  proof (cases "cmp x y < 0")
    case True
    then have "key x < key y" using Cons.prems(1) by simp
    with Cons.prems True show ?thesis by (auto simp: less_imp_le order_trans)
  next
    case False
    then have "key y \<le> key x" using Cons.prems(1) by (simp add: not_less)
    with Cons False show ?thesis by (auto simp: set_insert_sorted)
  qed
qed

lemma filter_insert_sorted:
  fixes key :: "'a \<Rightarrow> 'k::linorder"
  assumes "\<And>y. y \<in> set ys \<Longrightarrow> cmp x y < 0 \<longleftrightarrow> key x < key y" "sorted (map key ys)"
  shows "filter (\<lambda>y. key y = k) (insert_sorted cmp x ys) =
         filter (\<lambda>y. key y = k) ys @ (if key x = k then [x] else [])"
  using assms
proof (induction ys)
  case Nil
  show ?case by simp
next
  case (Cons y ys)
  show ?case
  proof (cases "cmp x y < 0")
    case True
    then have lt: "key x < key y" using Cons.prems(1) by simp
    have "key x = k \<Longrightarrow> filter (\<lambda>y. key y = k) (y # ys) = []"
      using lt Cons.prems(2) by (auto simp: filter_empty_conv)
    with True show ?thesis by auto
  next
    case False
    with Cons show ?thesis by auto
  qed
qed

lemma insertion_sort_snoc:
  "insertion_sort cmp (xs @ [x]) = insert_sorted cmp x (insertion_sort cmp xs)"
  by (simp add: insertion_sort_def)

lemma mset_insertion_sort: "mset (insertion_sort cmp xs) = mset xs"
  by (induction xs rule: rev_induct)
     (simp_all add: insertion_sort_snoc mset_insert_sorted, simp add: insertion_sort_def)

lemma set_insertion_sort: "set (insertion_sort cmp xs) = set xs"
  using mset_insertion_sort[of cmp xs] by (rule mset_eq_setD)

text \<open>
  When the comparator orders the elements of the array like a key does, the insertion
  sort is the stable sort by that key.
\<close>

lemma insertion_sort_sorted:
  fixes key :: "'a \<Rightarrow> 'k::linorder"
  assumes "\<And>x y. x \<in> set xs \<Longrightarrow> y \<in> set xs \<Longrightarrow> cmp x y < 0 \<longleftrightarrow> key x < key y"
  shows "sorted (map key (insertion_sort cmp xs))"
  using assms
proof (induction xs rule: rev_induct)
  case Nil
  show ?case by (simp add: insertion_sort_def)
next
  case (snoc x xs)
  have s: "sorted (map key (insertion_sort cmp xs))"
    by (rule snoc.IH) (simp add: snoc.prems)
  show ?case unfolding insertion_sort_snoc
    by (rule sorted_insert_sorted[OF _ s]) (simp add: snoc.prems set_insertion_sort)
qed

lemma insertion_sort_filter:
  fixes key :: "'a \<Rightarrow> 'k::linorder"
  assumes "\<And>x y. x \<in> set xs \<Longrightarrow> y \<in> set xs \<Longrightarrow> cmp x y < 0 \<longleftrightarrow> key x < key y"
  shows "filter (\<lambda>y. key y = k) (insertion_sort cmp xs) = filter (\<lambda>y. key y = k) xs"
  using assms
proof (induction xs rule: rev_induct)
  case Nil
  show ?case by (simp add: insertion_sort_def)
next
  case (snoc x xs)
  have s: "sorted (map key (insertion_sort cmp xs))"
    by (rule insertion_sort_sorted) (simp add: snoc.prems)
  have f: "filter (\<lambda>y. key y = k) (insertion_sort cmp xs) = filter (\<lambda>y. key y = k) xs"
    by (rule snoc.IH) (simp add: snoc.prems)
  have "filter (\<lambda>y. key y = k) (insert_sorted cmp x (insertion_sort cmp xs)) =
        filter (\<lambda>y. key y = k) (insertion_sort cmp xs) @ (if key x = k then [x] else [])"
    by (rule filter_insert_sorted[OF _ s]) (simp add: snoc.prems set_insertion_sort)
  then show ?case unfolding insertion_sort_snoc f by simp
qed

lemma insertion_sort_stable_sort:
  fixes key :: "'a \<Rightarrow> 'k::linorder"
  assumes "\<And>x y. x \<in> set xs \<Longrightarrow> y \<in> set xs \<Longrightarrow> cmp x y < 0 \<longleftrightarrow> key x < key y"
  shows "insertion_sort cmp xs = sort_key key xs"
proof -
  have "sort_key key xs = insertion_sort cmp xs"
  proof (rule properties_for_sort_key[OF mset_insertion_sort _ insertion_sort_sorted])
    fix k
    show "filter (\<lambda>x. key k = key x) (insertion_sort cmp xs) = filter (\<lambda>x. key k = key x) xs"
      using insertion_sort_filter[of xs cmp key "key k"] assms by (simp add: eq_commute)
  next
    fix x y assume "x \<in> set xs" "y \<in> set xs"
    then show "cmp x y < 0 \<longleftrightarrow> key x < key y" by (rule assms)
  qed
  then show ?thesis by simp
qed

text \<open>The second insertion sort is the first with the comparator asked the other way round.\<close>

lemma insert_before_swapped:
  "insert_before cmp x ys = insert_sorted (\<lambda>a b. - cmp b a) x ys"
  by (induction ys) auto

lemma insertion_sort_swapped_eq:
  "insertion_sort_swapped cmp xs = insertion_sort (\<lambda>a b. - cmp b a) xs"
  by (simp add: insertion_sort_swapped_def insertion_sort_def insert_before_swapped)

text \<open>The comparator is consistent exactly on Activities that all have a start time.\<close>

lemma byStartTime_timed:
  assumes "timed a" "timed b"
  shows "byStartTime a b = start_of a - start_of b"
  using assms by (auto simp: byStartTime_def timed_def start_of_def)

lemma byStartTime_consistent:
  "consistent_on byStartTime S \<longleftrightarrow> (\<forall>a \<in> S. timed a)"
proof
  assume c: "consistent_on byStartTime S"
  show "\<forall>a \<in> S. timed a"
  proof
    fix a assume "a \<in> S"
    with c have "byStartTime a a = 0" by (simp add: consistent_on_def)
    then show "timed a" by (auto simp: byStartTime_def timed_def split: option.splits)
  qed
next
  assume t: "\<forall>a \<in> S. timed a"
  have e: "byStartTime a b = start_of a - start_of b" if "a \<in> S" "b \<in> S" for a b
    using that t by (simp add: byStartTime_timed)
  show "consistent_on byStartTime S"
    unfolding consistent_on_def by (auto simp: e)
qed

text \<open>
  For Activities that all have a start time, the array a conforming sort returns is the
  stable sort by start time.
\<close>

lemma sorted_by_timed:
  assumes t: "\<forall>a \<in> set xs. timed a" and s: "sorted_by byStartTime xs ys"
  shows "ys = sort_key start_of xs"
proof -
  from s have m: "mset ys = mset xs"
    and o: "sorted_wrt (\<lambda>a b. \<not> byStartTime b a < 0) ys"
    and f: "\<forall>a \<in> set xs. filter (\<lambda>b. byStartTime a b = 0) ys = filter (\<lambda>b. byStartTime a b = 0) xs"
    by (simp_all add: sorted_by_def)
  from m have set: "set ys = set xs" by (rule mset_eq_setD)
  have ty: "\<forall>a \<in> set ys. timed a" using t set by simp
  have "sorted_wrt (\<lambda>a b. start_of a \<le> start_of b) ys"
  proof (rule sorted_wrt_mono_rel[OF _ o])
    fix a b assume "a \<in> set ys" "b \<in> set ys" "\<not> byStartTime b a < 0"
    then show "start_of a \<le> start_of b" using ty by (simp add: byStartTime_timed)
  qed
  then have srt: "sorted (map start_of ys)" by (simp add: sorted_map)
  have "sort_key start_of xs = ys"
  proof (rule properties_for_sort_key[OF m _ srt])
    fix k assume k: "k \<in> set ys"
    then have kx: "k \<in> set xs" using set by simp
    have "filter (\<lambda>x. start_of k = start_of x) ys = filter (\<lambda>b. byStartTime k b = 0) ys"
    proof (rule filter_cong[OF refl])
      fix x assume "x \<in> set ys"
      then show "(start_of k = start_of x) = (byStartTime k x = 0)"
        using ty k by (simp add: byStartTime_timed)
    qed
    also have "\<dots> = filter (\<lambda>b. byStartTime k b = 0) xs" using f kx by simp
    also have "\<dots> = filter (\<lambda>x. start_of k = start_of x) xs"
    proof (rule filter_cong[OF refl])
      fix x assume "x \<in> set xs"
      then show "(byStartTime k x = 0) = (start_of k = start_of x)"
        using t kx by (simp add: byStartTime_timed)
    qed
    finally show "filter (\<lambda>x. start_of k = start_of x) ys = filter (\<lambda>x. start_of k = start_of x) xs" .
  qed
  then show ?thesis by simp
qed

lemma conforming_timed:
  assumes "conforming srt byStartTime" "list_all timed xs"
  shows "srt byStartTime xs = sort_key start_of xs"
proof -
  from assms(2) have t: "\<forall>a \<in> set xs. timed a" by (simp add: list_all_iff)
  then have "consistent_on byStartTime (set xs)" by (simp add: byStartTime_consistent)
  with assms(1) have "sorted_by byStartTime xs (srt byStartTime xs)" by (simp add: conforming_def)
  with t show ?thesis by (rule sorted_by_timed)
qed

text \<open>Both insertion sorts are conforming sorts for the comparator.\<close>

lemma stable_sort_sorted_by:
  assumes t: "\<forall>a \<in> set xs. timed a"
  shows "sorted_by byStartTime xs (sort_key start_of xs)"
proof -
  have "sorted_wrt (\<lambda>a b. start_of a \<le> start_of b) (sort_key start_of xs)"
    using sorted_sort_key[of start_of xs] by (simp add: sorted_map)
  then have o: "sorted_wrt (\<lambda>a b. \<not> byStartTime b a < 0) (sort_key start_of xs)"
  proof (rule sorted_wrt_mono_rel[rotated])
    fix a b assume "a \<in> set (sort_key start_of xs)" "b \<in> set (sort_key start_of xs)"
      "start_of a \<le> start_of b"
    then show "\<not> byStartTime b a < 0" using t by (simp add: byStartTime_timed)
  qed
  have f: "filter (\<lambda>b. byStartTime a b = 0) (sort_key start_of xs) =
      filter (\<lambda>b. byStartTime a b = 0) xs" if a: "a \<in> set xs" for a
  proof -
    have "filter (\<lambda>b. byStartTime a b = 0) (sort_key start_of xs) =
        filter (\<lambda>b. start_of b = start_of a) (sort_key start_of xs)"
      by (rule filter_cong[OF refl]) (use t a in \<open>auto simp: byStartTime_timed\<close>)
    also have "\<dots> = filter (\<lambda>b. start_of b = start_of a) xs" by (rule sort_key_stable)
    also have "\<dots> = filter (\<lambda>b. byStartTime a b = 0) xs"
      by (rule filter_cong[OF refl]) (use t a in \<open>auto simp: byStartTime_timed\<close>)
    finally show ?thesis .
  qed
  show ?thesis unfolding sorted_by_def using o f by simp
qed

lemma insertion_sort_conforming: "conforming insertion_sort byStartTime"
  unfolding conforming_def
proof (intro allI impI)
  fix xs :: "activity list"
  assume "consistent_on byStartTime (set xs)"
  then have t: "\<forall>a \<in> set xs. timed a" by (simp add: byStartTime_consistent)
  have "insertion_sort byStartTime xs = sort_key start_of xs"
    by (rule insertion_sort_stable_sort) (use t in \<open>auto simp: byStartTime_timed\<close>)
  then show "sorted_by byStartTime xs (insertion_sort byStartTime xs)"
    using stable_sort_sorted_by[OF t] by simp
qed

lemma insertion_sort_swapped_conforming: "conforming insertion_sort_swapped byStartTime"
  unfolding conforming_def
proof (intro allI impI)
  fix xs :: "activity list"
  assume "consistent_on byStartTime (set xs)"
  then have t: "\<forall>a \<in> set xs. timed a" by (simp add: byStartTime_consistent)
  have "insertion_sort (\<lambda>a b. - byStartTime b a) xs = sort_key start_of xs"
    by (rule insertion_sort_stable_sort) (use t in \<open>auto simp: byStartTime_timed\<close>)
  then show "sorted_by byStartTime xs (insertion_sort_swapped byStartTime xs)"
    using stable_sort_sorted_by[OF t] by (simp add: insertion_sort_swapped_eq)
qed

text \<open>
  On Activities of which two have no start time the two sorts differ: the first keeps
  the stroll before the nap, the second puts the nap first. So the order of Activities
  without start time is the engine's, not the formatter's.
\<close>

lemma untimed_order_engine_dependent:
  "map a_title (insertion_sort byStartTime acts_untimed) = [''Museum'', ''Stroll'', ''Nap''] \<and>
   map a_title (insertion_sort_swapped byStartTime acts_untimed) = [''Museum'', ''Nap'', ''Stroll'']"
  by (simp add: insertion_sort_def insertion_sort_swapped_def acts_untimed_def act_at_def
      byStartTime_def)

lemma flat_rows_plain:
  "concat (map (\<lambda>day. if length (cd_activities day) = 0 then []
                         else map (\<lambda>act. (day, act)) (cd_activities day)) ds) =
   concat (map (\<lambda>day. map (\<lambda>act. (day, act)) (cd_activities day)) ds)"
  by (induction ds) auto

lemma exportExcel_rows:
  "exportExcel trip = flat_rows (map (\<lambda>day. (day, cd_activities day)) (ct_days trip))"
  unfolding exportExcel_def flat_rows_plain by (simp add: flat_rows_def comp_def)

lemma exportToCalendar_rows:
  "exportToCalendar trip = flat_rows (map (\<lambda>day. (day, cd_activities day)) (ct_days trip))"
  by (simp add: exportToCalendar_def flat_rows_def comp_def)

lemma exportJSON_sections:
  "json_sections (exportJSON trip) =
     map (\<lambda>day. (cd_date day, map a_title (cd_activities day))) (ct_days trip)"
  by (simp add: json_sections_def exportJSON_def comp_def)

lemma sectioned_days:
  "map fst (exportPDF srt trip) = filter (\<lambda>day. cd_activities day \<noteq> []) (ct_days trip)"
  by (simp add: exportPDF_def comp_def)

lemma sectioned_same:
  "exportText srt trip = exportPDF srt trip" "exportMarkdown srt trip = exportPDF srt trip"
  by (simp_all add: exportPDF_def exportText_def exportMarkdown_def)

lemma sectioned_timed:
  assumes "conforming srt byStartTime" "(day, acts) \<in> set (exportPDF srt trip)"
    "list_all timed (cd_activities day)"
  shows "acts = sort_key start_of (cd_activities day)"
proof -
  from assms(2) have "acts = srt byStartTime (cd_activities day)"
    by (auto simp: exportPDF_def)
  then show ?thesis using conforming_timed[OF assms(1,3)] by simp
qed

text \<open>
  Claim C8 as stated does not hold for every formatter. In the sample Trip (a Day
  without Activities, and a Day with Dinner 19:00, Museum 10:00, Coffee 10:00) the
  preprocessing yields one Day with Museum, Coffee, Dinner; the spreadsheet and the
  calendar file list the Activities in the stored order, and the JSON document lists
  both Days, the Activities in the stored order.
\<close>

theorem export_preprocessing_counterexample:
  "map (\<lambda>(d, a). a_title a) (flat_rows (common_preprocessing trip_sample)) =
     [''Museum'', ''Coffee'', ''Dinner''] \<and>
   map (\<lambda>(d, a). a_title a) (exportExcel trip_sample) =
     [''Dinner'', ''Museum'', ''Coffee''] \<and>
   map (\<lambda>(d, a). a_title a) (exportToCalendar trip_sample) =
     [''Dinner'', ''Museum'', ''Coffee''] \<and>
   map (\<lambda>(d, acts). (cd_date d, map a_title acts)) (common_preprocessing trip_sample) =
     [(19788 * DAY, [''Museum'', ''Coffee'', ''Dinner''])] \<and>
   json_sections (exportJSON trip_sample) =
     [(19787 * DAY, []), (19788 * DAY, [''Dinner'', ''Museum'', ''Coffee''])]"
  by (simp add: flat_rows_def common_preprocessing_def trip_sample_def day_sample_def
      act_at_def timed_def start_of_def exportExcel_def exportToCalendar_def
      json_sections_def exportJSON_def DAY_def HOUR_def)

text \<open>
  Claim C8, amended. Whatever conforming sort the engine has, the PDF, plain-text and
  Markdown formatters render the same sections: one for each Day that has Activities,
  in the order of the Days, and in the section of a Day whose Activities all have a
  start time the Activities stand in ascending order of start time, equal start times
  in their original order. Nothing is said of the order within a Day that has an
  Activity without start time: the comparator answers 1 for such an Activity whatever
  it is compared with, itself included, so it is not consistent there. The spreadsheet
  and the calendar file list the Activities of every Day in the stored order (a Day
  without Activities contributes no row), and the JSON document lists every Day, with
  its Activities in the stored order.
\<close>

theorem export_preprocessing:
  assumes "conforming srt byStartTime"
  shows "exportText srt trip = exportPDF srt trip \<and>
   exportMarkdown srt trip = exportPDF srt trip \<and>
   map fst (exportPDF srt trip) = filter (\<lambda>day. cd_activities day \<noteq> []) (ct_days trip) \<and>
   (\<forall>(day, acts) \<in> set (exportPDF srt trip).
      list_all timed (cd_activities day) \<longrightarrow> acts = sort_key start_of (cd_activities day)) \<and>
   exportExcel trip = flat_rows (map (\<lambda>day. (day, cd_activities day)) (ct_days trip)) \<and>
   exportToCalendar trip = flat_rows (map (\<lambda>day. (day, cd_activities day)) (ct_days trip)) \<and>
   json_sections (exportJSON trip) =
     map (\<lambda>day. (cd_date day, map a_title (cd_activities day))) (ct_days trip)"
proof -
  have "\<forall>(day, acts) \<in> set (exportPDF srt trip).
      list_all timed (cd_activities day) \<longrightarrow> acts = sort_key start_of (cd_activities day)"
    using sectioned_timed[OF assms] by blast
  then show ?thesis
    using sectioned_same[of srt trip] sectioned_days[of srt trip] exportExcel_rows[of trip]
      exportToCalendar_rows[of trip] exportJSON_sections[of trip]
    by (intro conjI)
qed

theorem export_preprocessing_witness:
  "conforming insertion_sort byStartTime \<and>
   list_all timed (cd_activities day_sample) \<and>
   map (\<lambda>(d, acts). (cd_date d, map a_title acts)) (exportPDF insertion_sort trip_sample) =
     [(19788 * DAY, [''Museum'', ''Coffee'', ''Dinner''])] \<and>
   map (\<lambda>(d, acts). (cd_date d, map a_title acts)) (exportText insertion_sort trip_sample) =
     [(19788 * DAY, [''Museum'', ''Coffee'', ''Dinner''])] \<and>
   map (\<lambda>(d, acts). (cd_date d, map a_title acts)) (exportMarkdown insertion_sort trip_sample) =
     [(19788 * DAY, [''Museum'', ''Coffee'', ''Dinner''])]"
proof -
  have t: "list_all timed (cd_activities day_sample)"
    by (simp add: day_sample_def act_at_def timed_def)
  have p: "exportPDF insertion_sort trip_sample =
      [(day_sample, insertion_sort byStartTime (cd_activities day_sample))]"
    by (simp add: exportPDF_def trip_sample_def day_sample_def)
  have s: "map a_title (sort_key start_of (cd_activities day_sample)) =
      [''Museum'', ''Coffee'', ''Dinner'']"
    by (simp add: day_sample_def act_at_def start_of_def DAY_def HOUR_def)
  have d: "cd_date day_sample = 19788 * DAY" by (simp add: day_sample_def)
  from export_preprocessing[OF insertion_sort_conforming, of trip_sample]
  have e: "exportText insertion_sort trip_sample = exportPDF insertion_sort trip_sample"
    "exportMarkdown insertion_sort trip_sample = exportPDF insertion_sort trip_sample"
    and i: "insertion_sort byStartTime (cd_activities day_sample) =
       sort_key start_of (cd_activities day_sample)"
    using t by (simp_all add: p)
  show ?thesis
    unfolding e p i using t insertion_sort_conforming by (simp add: s d)
qed

subsection \<open>Trip update\<close>

lemma newDates_done: "e < c \<Longrightarrow> newDates z c e = Some []"
  by (subst newDates.simps) simp

lemma newDates_step:
  "c \<le> e \<Longrightarrow> newDates z (setDate_next z c) e = Some rest \<Longrightarrow>
   newDates z c e = Some (c # rest)"
  by (subst newDates.simps) simp

lemma trip_update_id [simp]: "t_id (trip_update tid body a b t) = t_id t"
  by (simp add: trip_update_def)

lemma trip_update_dates:
  "t_id t = tid \<Longrightarrow> t_startDate (trip_update tid body a b t) = a \<and>
     t_endDate (trip_update tid body a b t) = b"
  by (simp add: trip_update_def)

lemma PATCH_trip_changed:
  assumes "find (\<lambda>t. t_id t = tid) (db_trips s) = Some cur" "datesChanged body cur"
    and "s2 = (case tb_startDate body of Some t \<Rightarrow> t | None \<Rightarrow> t_startDate cur)"
    and "e2 = (case tb_endDate body of Some t \<Rightarrow> t | None \<Rightarrow> t_endDate cur)"
  shows "PATCH_trip z s tid body =
     (case regenerate_days z tid (filter (\<lambda>d. d_tripId d = tid) (db_days s)) s2 e2
             (s\<lparr>db_trips := map (trip_update tid body s2 e2) (db_trips s)\<rparr>) of
        None \<Rightarrow> None
      | Some (False, x) \<Rightarrow> Some (Status 500, x)
      | Some (True, x) \<Rightarrow> Some (Ok (trip_update tid body s2 e2 cur), x))"
  using assms(1,2) unfolding assms(3,4) by (simp add: PATCH_trip_def Let_def)

lemma PATCH_trip_unchanged:
  assumes "find (\<lambda>t. t_id t = tid) (db_trips s) = Some cur" "\<not> datesChanged body cur"
    and "s2 = (case tb_startDate body of Some t \<Rightarrow> t | None \<Rightarrow> t_startDate cur)"
    and "e2 = (case tb_endDate body of Some t \<Rightarrow> t | None \<Rightarrow> t_endDate cur)"
  shows "PATCH_trip z s tid body =
     Some (Ok (trip_update tid body s2 e2 cur),
           s\<lparr>db_trips := map (trip_update tid body s2 e2) (db_trips s)\<rparr>)"
  using assms(1,2) unfolding assms(3,4) by (simp add: PATCH_trip_def Let_def)

text \<open>
  The first loop on a store with unique Day identifiers: every delete finds its row, and
  the Days outside the range are gone with their Activities.
\<close>

lemma delete_outside_eq:
  assumes "distinct (map d_id ds)" "d_id ` set ds \<subseteq> d_id ` set (db_days s)"
  shows "delete_outside ds a b s =
     (True, s\<lparr>db_days := filter (\<lambda>d. d_id d \<notin> d_id ` {x \<in> set ds. outside a b x}) (db_days s),
              db_acts := filter (\<lambda>x. a_dayId x \<notin> d_id ` {x \<in> set ds. outside a b x}) (db_acts s)\<rparr>)"
  using assms
proof (induction ds arbitrary: s)
  case Nil
  then show ?case by simp
next
  case (Cons dy ds)
  show ?case
  proof (cases "outside a b dy")
    case False
    have eq: "{x \<in> set (dy # ds). outside a b x} = {x \<in> set ds. outside a b x}"
      using False by auto
    have "delete_outside (dy # ds) a b s = delete_outside ds a b s"
      using False by (simp add: outside_def)
    also have "\<dots> = (True, s\<lparr>db_days := filter (\<lambda>d. d_id d \<notin> d_id ` {x \<in> set ds. outside a b x}) (db_days s),
              db_acts := filter (\<lambda>x. a_dayId x \<notin> d_id ` {x \<in> set ds. outside a b x}) (db_acts s)\<rparr>)"
      using Cons.prems by (intro Cons.IH) auto
    finally show ?thesis unfolding eq .
  next
    case True
    define s' where "s' = s\<lparr>db_days := filter (\<lambda>d. d_id d \<noteq> d_id dy) (db_days s),
                   db_acts := filter (\<lambda>x. a_dayId x \<noteq> d_id dy) (db_acts s)\<rparr>"
    have del: "day_delete (d_id dy) s = Some s'"
      using Cons.prems by (simp add: day_delete_def s'_def)
    have sub: "d_id ` set ds \<subseteq> d_id ` set (db_days s')"
    proof
      fix i assume i: "i \<in> d_id ` set ds"
      have "d_id dy \<notin> d_id ` set ds" using Cons.prems(1) by simp
      with i have "i \<noteq> d_id dy" by blast
      moreover from i Cons.prems(2) obtain y where "y \<in> set (db_days s)" "d_id y = i" by auto
      ultimately show "i \<in> d_id ` set (db_days s')" by (force simp: s'_def)
    qed
    have eq: "d_id ` {x \<in> set (dy # ds). outside a b x} = insert (d_id dy) (d_id ` {x \<in> set ds. outside a b x})"
      using True by auto
    have "delete_outside (dy # ds) a b s = delete_outside ds a b s'"
      using True del by (simp add: outside_def)
    also have "\<dots> = (True, s'\<lparr>db_days := filter (\<lambda>d. d_id d \<notin> d_id ` {x \<in> set ds. outside a b x}) (db_days s'),
              db_acts := filter (\<lambda>x. a_dayId x \<notin> d_id ` {x \<in> set ds. outside a b x}) (db_acts s')\<rparr>)"
      using Cons.prems sub by (intro Cons.IH) auto
    finally show ?thesis unfolding eq
      by (simp add: s'_def conj_commute)
  qed
qed

lemma distinct_id_eq:
  "distinct (map d_id ds) \<Longrightarrow> x \<in> set ds \<Longrightarrow> y \<in> set ds \<Longrightarrow> d_id x = d_id y \<Longrightarrow> x = y"
  by (auto simp: distinct_map inj_on_def)

lemma regenerate_days_inverted:
  assumes wf: "wf_db s" and inv: "e2 < s2"
  shows "regenerate_days z tid (filter (\<lambda>d. d_tripId d = tid) (db_days s)) s2 e2 s =
     Some (True, s\<lparr>db_days := filter (\<lambda>d. d_tripId d \<noteq> tid) (db_days s),
              db_acts := filter (\<lambda>x. a_dayId x \<notin> d_id ` {d \<in> set (db_days s). d_tripId d = tid})
                           (db_acts s)\<rparr>)"
proof -
  let ?cur = "filter (\<lambda>d. d_tripId d = tid) (db_days s)"
  have dist: "distinct (map d_id (db_days s))" using wf by (simp add: wf_db_def)
  have dcur: "distinct (map d_id ?cur)" by (rule distinct_map_filter[OF dist])
  have sub: "d_id ` set ?cur \<subseteq> d_id ` set (db_days s)" by auto
  have out: "outside s2 e2 d" for d using inv by (auto simp: outside_def)
  have D: "d_id ` {x \<in> set ?cur. outside s2 e2 x} = d_id ` {d \<in> set (db_days s). d_tripId d = tid}"
    using out by auto
  have keep: "filter (\<lambda>d. d_id d \<notin> d_id ` {d \<in> set (db_days s). d_tripId d = tid}) (db_days s) =
              filter (\<lambda>d. d_tripId d \<noteq> tid) (db_days s)"
  proof (rule filter_cong[OF refl])
    fix d assume d: "d \<in> set (db_days s)"
    show "(d_id d \<notin> d_id ` {d \<in> set (db_days s). d_tripId d = tid}) = (d_tripId d \<noteq> tid)"
    proof
      assume "d_id d \<notin> d_id ` {d \<in> set (db_days s). d_tripId d = tid}"
      with d show "d_tripId d \<noteq> tid" by auto
    next
      assume n: "d_tripId d \<noteq> tid"
      show "d_id d \<notin> d_id ` {d \<in> set (db_days s). d_tripId d = tid}"
      proof
        assume "d_id d \<in> d_id ` {d \<in> set (db_days s). d_tripId d = tid}"
        then obtain x where x: "x \<in> set (db_days s)" "d_tripId x = tid" "d_id x = d_id d" by auto
        from distinct_id_eq[OF dist x(1) d x(3)] x(2) n show False by simp
      qed
    qed
  qed
  have nd: "newDates z s2 e2 = Some []" using inv by (rule newDates_done)
  show ?thesis
    unfolding regenerate_days_def delete_outside_eq[OF dcur sub] D keep nd by simp
qed

text \<open>
  Claim C6. An update of a Trip to a range whose start is after its end, in every time
  zone of the server, is answered with the updated Trip and no error. When it changes
  the stored range the reconciliation runs: no date is enumerated, every Day of the Trip
  is deleted, with its Activities, and the Days and Activities of other Trips stay. (An
  update that leaves the stored range as it is runs no reconciliation; it is covered for
  a Trip that has no Days.)
\<close>

theorem inverted_range_update:
  assumes wf: "wf_db s"
    and trip: "find (\<lambda>t. t_id t = tid) (db_trips s) = Some cur"
    and s2: "s2 = (case tb_startDate body of Some t \<Rightarrow> t | None \<Rightarrow> t_startDate cur)"
    and e2: "e2 = (case tb_endDate body of Some t \<Rightarrow> t | None \<Rightarrow> t_endDate cur)"
    and inv: "e2 < s2"
    and changed: "datesChanged body cur \<or> filter (\<lambda>d. d_tripId d = tid) (db_days s) = []"
  shows "\<exists>tr s'. PATCH_trip z s tid body = Some (Ok tr, s') \<and>
     t_id tr = tid \<and> t_startDate tr = s2 \<and> t_endDate tr = e2 \<and> tr \<in> set (db_trips s') \<and>
     newDates z s2 e2 = Some [] \<and>
     filter (\<lambda>d. d_tripId d = tid) (db_days s') = [] \<and>
     db_days s' = filter (\<lambda>d. d_tripId d \<noteq> tid) (db_days s) \<and>
     db_acts s' = filter (\<lambda>x. a_dayId x \<notin> d_id ` {d \<in> set (db_days s). d_tripId d = tid})
                    (db_acts s)"
proof -
  define s1 where "s1 = s\<lparr>db_trips := map (trip_update tid body s2 e2) (db_trips s)\<rparr>"
  define s' where "s' = s1\<lparr>db_days := filter (\<lambda>d. d_tripId d \<noteq> tid) (db_days s1),
              db_acts := filter (\<lambda>x. a_dayId x \<notin> d_id ` {d \<in> set (db_days s1). d_tripId d = tid})
                           (db_acts s1)\<rparr>"
  define tr where "tr = trip_update tid body s2 e2 cur"
  have d1: "db_days s1 = db_days s" and a1: "db_acts s1 = db_acts s"
    by (simp_all add: s1_def)
  have wf1: "wf_db s1" using wf by (auto simp: wf_db_def s1_def)
  from find_Some_mem[OF trip] have cur: "cur \<in> set (db_trips s)" "t_id cur = tid" by simp_all
  have c1: "PATCH_trip z s tid body = Some (Ok tr, s')"
  proof (cases "datesChanged body cur")
    case True
    from regenerate_days_inverted[OF wf1 inv, of z tid]
    have "regenerate_days z tid (filter (\<lambda>d. d_tripId d = tid) (db_days s)) s2 e2 s1 = Some (True, s')"
      by (simp add: s'_def d1)
    then show ?thesis
      unfolding PATCH_trip_changed[OF trip True s2 e2] s1_def[symmetric] tr_def by simp
  next
    case False
    with changed have none: "filter (\<lambda>d. d_tripId d = tid) (db_days s1) = []" by (simp add: d1)
    then have n: "\<forall>d \<in> set (db_days s1). d_tripId d \<noteq> tid" by (simp add: filter_empty_conv)
    then have k: "filter (\<lambda>d. d_tripId d \<noteq> tid) (db_days s1) = db_days s1"
      by (simp add: filter_id_conv)
    have ne: "a_dayId x \<notin> d_id ` {d \<in> set (db_days s1). d_tripId d = tid}" for x
      using n by auto
    have e: "filter (\<lambda>x. a_dayId x \<notin> d_id ` {d \<in> set (db_days s1). d_tripId d = tid})
        (db_acts s1) = db_acts s1"
      by (intro filter_True ballI) (rule ne)
    have "s' = s1" unfolding s'_def k e by simp
    then show ?thesis
      unfolding PATCH_trip_unchanged[OF trip False s2 e2] s1_def[symmetric] tr_def by simp
  qed
  have c2: "t_id tr = tid" "t_startDate tr = s2" "t_endDate tr = e2"
    using trip_update_dates[OF cur(2), of body s2 e2] cur(2) by (simp_all add: tr_def)
  have c2': "tr \<in> set (db_trips s')" using cur(1) by (simp add: s'_def s1_def tr_def)
  have c3: "newDates z s2 e2 = Some []" using inv by (rule newDates_done)
  have c5: "db_days s' = filter (\<lambda>d. d_tripId d \<noteq> tid) (db_days s)" by (simp add: s'_def d1)
  have c4: "filter (\<lambda>d. d_tripId d = tid) (db_days s') = []"
    unfolding c5 by (simp add: filter_empty_conv)
  have c6: "db_acts s' = filter (\<lambda>x. a_dayId x \<notin> d_id ` {d \<in> set (db_days s). d_tripId d = tid})
                    (db_acts s)" by (simp add: s'_def d1 a1)
  show ?thesis using c1 c2 c2' c3 c4 c5 c6
    by (intro exI[of _ tr] exI[of _ s'] conjI)
qed

text \<open>
  The Trip of 2024-03-05 to 2024-03-06 is updated to the range from 2024-03-07 back to
  2024-03-05, at a server in Paris: both Days and the Lunch are gone, the Trip has the
  new dates.
\<close>

theorem inverted_range_update_witness:
  "wf_db db_two_days \<and> 19787 * DAY < 19789 * DAY \<and>
   datesChanged (body_rome (19789 * DAY) (19787 * DAY)) (trip_rome 0 (19787 * DAY) (19788 * DAY)) \<and>
   (\<exists>tr s'. PATCH_trip europe_paris_2024 db_two_days 0 (body_rome (19789 * DAY) (19787 * DAY)) =
        Some (Ok tr, s') \<and>
      t_startDate tr = 19789 * DAY \<and> t_endDate tr = 19787 * DAY \<and>
      db_days s' = [] \<and> db_acts s' = [])"
proof -
  let ?b = "body_rome (19789 * DAY) (19787 * DAY)"
  let ?cur = "trip_rome 0 (19787 * DAY) (19788 * DAY)"
  have wf: "wf_db db_two_days" by (simp add: wf_db_def db_two_days_def trip_rome_def)
  have lt: "19787 * DAY < 19789 * DAY" by (simp add: DAY_def)
  have f: "find (\<lambda>t. t_id t = 0) (db_trips db_two_days) = Some ?cur"
    by (simp add: db_two_days_def trip_rome_def)
  have s2: "19789 * DAY = (case tb_startDate ?b of Some t \<Rightarrow> t | None \<Rightarrow> t_startDate ?cur)"
    and e2: "19787 * DAY = (case tb_endDate ?b of Some t \<Rightarrow> t | None \<Rightarrow> t_endDate ?cur)"
    by (simp_all add: body_rome_def)
  have ch: "datesChanged ?b ?cur"
    by (simp add: datesChanged_def body_rome_def trip_rome_def DAY_def)
  from inverted_range_update[OF wf f s2 e2 lt disjI1[OF ch], of europe_paris_2024]
  obtain tr s' where r: "PATCH_trip europe_paris_2024 db_two_days 0 ?b = Some (Ok tr, s')"
    and tr: "t_startDate tr = 19789 * DAY" "t_endDate tr = 19787 * DAY"
    and d: "db_days s' = filter (\<lambda>d. d_tripId d \<noteq> 0) (db_days db_two_days)"
    and a: "db_acts s' = filter (\<lambda>x. a_dayId x \<notin>
                d_id ` {d \<in> set (db_days db_two_days). d_tripId d = 0}) (db_acts db_two_days)"
    by blast
  have d': "db_days s' = []" unfolding d by (simp add: db_two_days_def)
  have "(2::nat) \<in> d_id ` {d \<in> set (db_days db_two_days). d_tripId d = 0}"
    by (rule image_eqI[where x = "\<lparr>d_id = 2, d_tripId = 0, d_date = 19788 * DAY, d_index = 1\<rparr>"])
       (simp_all add: db_two_days_def)
  then have a': "db_acts s' = []" unfolding a by (simp add: db_two_days_def)
  from r tr d' a'
  have "\<exists>tr s'. PATCH_trip europe_paris_2024 db_two_days 0 ?b = Some (Ok tr, s') \<and>
      t_startDate tr = 19789 * DAY \<and> t_endDate tr = 19787 * DAY \<and>
      db_days s' = [] \<and> db_acts s' = []"
    by (intro exI[of _ tr] exI[of _ s'] conjI)
  with wf lt ch show ?thesis by (intro conjI)
qed

text \<open>The reconciliation at a server in Paris, for a new range from 2024-10-26 to 2024-10-28.\<close>

lemma paris_new_dates:
  "newDates europe_paris_2024 (20022 * DAY) (20024 * DAY) = Some [20022 * DAY, 20023 * DAY]"
proof -
  have le: "20022 * DAY \<le> 20024 * DAY" "20023 * DAY \<le> 20024 * DAY"
    "20024 * DAY < 20024 * DAY + HOUR"
    by (simp_all add: DAY_def HOUR_def)
  have 3: "newDates europe_paris_2024 (20024 * DAY + HOUR) (20024 * DAY) = Some []"
    by (rule newDates_done[OF le(3)])
  have 2: "newDates europe_paris_2024 (20023 * DAY) (20024 * DAY) = Some [20023 * DAY]"
    by (rule newDates_step[OF le(2)]) (simp only: paris_steps 3)
  show ?thesis
    by (rule newDates_step[OF le(1)]) (simp only: paris_steps 2)
qed

lemma utc_new_dates:
  "newDates utc (20022 * DAY) (20024 * DAY) = Some [20022 * DAY, 20023 * DAY, 20024 * DAY]"
proof -
  have le: "20022 * DAY \<le> 20024 * DAY" "20023 * DAY \<le> 20024 * DAY"
    "20024 * DAY \<le> 20024 * DAY" "20024 * DAY < 20024 * DAY + DAY"
    by (simp_all add: DAY_def)
  have st: "20022 * DAY + DAY = 20023 * DAY" "20023 * DAY + DAY = 20024 * DAY"
    by simp_all
  have 4: "newDates utc (20024 * DAY + DAY) (20024 * DAY) = Some []"
    by (rule newDates_done[OF le(4)])
  have 3: "newDates utc (20024 * DAY) (20024 * DAY) = Some [20024 * DAY]"
    by (rule newDates_step[OF le(3)]) (simp only: utc_steps 4)
  have 2: "newDates utc (20023 * DAY) (20024 * DAY) = Some [20023 * DAY, 20024 * DAY]"
    by (rule newDates_step[OF le(2)]) (simp only: utc_steps st 3)
  show ?thesis
    by (rule newDates_step[OF le(1)]) (simp only: utc_steps st 2)
qed

lemma october_keys:
  "dateKey (20021 * DAY) = 20021" "dateKey (20022 * DAY) = 20022"
  "dateKey (20023 * DAY) = 20023" "dateKey (20024 * DAY) = 20024"
  by (simp_all add: dateKey_def DAY_def)

lemma october_request:
  "find (\<lambda>t. t_id t = 0) (db_trips db_october) = Some (trip_rome 0 (20021 * DAY) (20022 * DAY))"
  "datesChanged (body_rome (20022 * DAY) (20024 * DAY)) (trip_rome 0 (20021 * DAY) (20022 * DAY))"
  "20022 * DAY = (case tb_startDate (body_rome (20022 * DAY) (20024 * DAY)) of
                    Some t \<Rightarrow> t | None \<Rightarrow> t_startDate (trip_rome 0 (20021 * DAY) (20022 * DAY)))"
  "20024 * DAY = (case tb_endDate (body_rome (20022 * DAY) (20024 * DAY)) of
                    Some t \<Rightarrow> t | None \<Rightarrow> t_endDate (trip_rome 0 (20021 * DAY) (20022 * DAY)))"
  "trip_update 0 (body_rome (20022 * DAY) (20024 * DAY)) (20022 * DAY) (20024 * DAY)
     (trip_rome 0 (20021 * DAY) (20022 * DAY)) = trip_rome 0 (20022 * DAY) (20024 * DAY)"
  by (simp_all add: db_october_def trip_rome_def body_rome_def datesChanged_def trip_update_def
      str_truthy_def parse_opt_def DAY_def)

lemma october_deleted:
  "delete_outside (filter (\<lambda>d. d_tripId d = 0) (db_days db_october)) (20022 * DAY) (20024 * DAY)
     (db_october\<lparr>db_trips := [trip_rome 0 (20022 * DAY) (20024 * DAY)]\<rparr>) =
   (True, db_october\<lparr>db_trips := [trip_rome 0 (20022 * DAY) (20024 * DAY)],
            db_days := [\<lparr>d_id = 2, d_tripId = 0, d_date = 20022 * DAY, d_index = 1\<rparr>]\<rparr>)"
  by (simp add: db_october_def day_delete_def DAY_def)

lemma october_existing:
  "existingDaysByDate (filter (\<lambda>d. d_tripId d = 0) (db_days db_october)) =
     [20021 \<mapsto> \<lparr>d_id = 1, d_tripId = 0, d_date = 20021 * DAY, d_index = 0\<rparr>,
      20022 \<mapsto> \<lparr>d_id = 2, d_tripId = 0, d_date = 20022 * DAY, d_index = 1\<rparr>]"
  by (simp add: db_october_def existingDaysByDate_def october_keys)

text \<open>
  Claim C1 at a server in Paris. The Trip has the Days of 2024-10-25 (id 1) and
  2024-10-26 (id 2, with a dinner), and its range is updated to 2024-10-26 ..
  2024-10-28. The claim keeps the Day of 2024-10-26 with its dinner, deletes the Day of
  2024-10-25 and creates the Days of 2024-10-27 and 2024-10-28. The handler keeps,
  deletes and re-numbers as claimed, but creates the Day of 2024-10-27 only (id 4): the
  enumeration of the new dates ends before 2024-10-28, as in the creation of a Trip.
\<close>

theorem day_reconciliation_clock_change:
  "PATCH_trip europe_paris_2024 db_october 0 (body_rome (20022 * DAY) (20024 * DAY)) =
     Some (Ok (trip_rome 0 (20022 * DAY) (20024 * DAY)),
           \<lparr>db_trips = [trip_rome 0 (20022 * DAY) (20024 * DAY)],
            db_days = [\<lparr>d_id = 2, d_tripId = 0, d_date = 20022 * DAY, d_index = 0\<rparr>,
                       \<lparr>d_id = 4, d_tripId = 0, d_date = 20023 * DAY, d_index = 1\<rparr>],
            db_acts = db_acts db_october,
            db_next = 5\<rparr>)"
proof -
  have t: "map (trip_update 0 (body_rome (20022 * DAY) (20024 * DAY)) (20022 * DAY) (20024 * DAY))
      (db_trips db_october) = [trip_rome 0 (20022 * DAY) (20024 * DAY)]"
    using october_request(5) by (simp add: db_october_def)
  have u: "upsert_days
      [20021 \<mapsto> \<lparr>d_id = 1, d_tripId = 0, d_date = 20021 * DAY, d_index = 0\<rparr>,
       20022 \<mapsto> \<lparr>d_id = 2, d_tripId = 0, d_date = 20022 * DAY, d_index = 1\<rparr>]
      0 [20022 * DAY, 20023 * DAY] 0
      (db_october\<lparr>db_trips := [trip_rome 0 (20022 * DAY) (20024 * DAY)],
            db_days := [\<lparr>d_id = 2, d_tripId = 0, d_date = 20022 * DAY, d_index = 1\<rparr>]\<rparr>) =
     (True, \<lparr>db_trips = [trip_rome 0 (20022 * DAY) (20024 * DAY)],
            db_days = [\<lparr>d_id = 2, d_tripId = 0, d_date = 20022 * DAY, d_index = 0\<rparr>,
                       \<lparr>d_id = 4, d_tripId = 0, d_date = 20023 * DAY, d_index = 1\<rparr>],
            db_acts = db_acts db_october,
            db_next = 5\<rparr>)"
    by (simp add: october_keys day_update_index_def day_create_def db_october_def)
  have r: "regenerate_days europe_paris_2024 0 (filter (\<lambda>d. d_tripId d = 0) (db_days db_october))
      (20022 * DAY) (20024 * DAY)
      (db_october\<lparr>db_trips := [trip_rome 0 (20022 * DAY) (20024 * DAY)]\<rparr>) =
     Some (upsert_days
      [20021 \<mapsto> \<lparr>d_id = 1, d_tripId = 0, d_date = 20021 * DAY, d_index = 0\<rparr>,
       20022 \<mapsto> \<lparr>d_id = 2, d_tripId = 0, d_date = 20022 * DAY, d_index = 1\<rparr>]
      0 [20022 * DAY, 20023 * DAY] 0
      (db_october\<lparr>db_trips := [trip_rome 0 (20022 * DAY) (20024 * DAY)],
            db_days := [\<lparr>d_id = 2, d_tripId = 0, d_date = 20022 * DAY, d_index = 1\<rparr>]\<rparr>))"
    unfolding regenerate_days_def paris_new_dates october_deleted october_existing
    by (simp only: option.case prod.case bool.case)
  show ?thesis
    unfolding PATCH_trip_changed[OF october_request(1-4)] october_request(5) t r u
    by (simp only: option.case prod.case bool.case)
qed

text \<open>The same update at a server in UTC creates both Days.\<close>

lemma day_reconciliation_utc:
  "PATCH_trip utc db_october 0 (body_rome (20022 * DAY) (20024 * DAY)) =
     Some (Ok (trip_rome 0 (20022 * DAY) (20024 * DAY)),
           \<lparr>db_trips = [trip_rome 0 (20022 * DAY) (20024 * DAY)],
            db_days = [\<lparr>d_id = 2, d_tripId = 0, d_date = 20022 * DAY, d_index = 0\<rparr>,
                       \<lparr>d_id = 4, d_tripId = 0, d_date = 20023 * DAY, d_index = 1\<rparr>,
                       \<lparr>d_id = 5, d_tripId = 0, d_date = 20024 * DAY, d_index = 2\<rparr>],
            db_acts = db_acts db_october,
            db_next = 6\<rparr>)"
proof -
  have t: "map (trip_update 0 (body_rome (20022 * DAY) (20024 * DAY)) (20022 * DAY) (20024 * DAY))
      (db_trips db_october) = [trip_rome 0 (20022 * DAY) (20024 * DAY)]"
    using october_request(5) by (simp add: db_october_def)
  have u: "upsert_days
      [20021 \<mapsto> \<lparr>d_id = 1, d_tripId = 0, d_date = 20021 * DAY, d_index = 0\<rparr>,
       20022 \<mapsto> \<lparr>d_id = 2, d_tripId = 0, d_date = 20022 * DAY, d_index = 1\<rparr>]
      0 [20022 * DAY, 20023 * DAY, 20024 * DAY] 0
      (db_october\<lparr>db_trips := [trip_rome 0 (20022 * DAY) (20024 * DAY)],
            db_days := [\<lparr>d_id = 2, d_tripId = 0, d_date = 20022 * DAY, d_index = 1\<rparr>]\<rparr>) =
     (True, \<lparr>db_trips = [trip_rome 0 (20022 * DAY) (20024 * DAY)],
            db_days = [\<lparr>d_id = 2, d_tripId = 0, d_date = 20022 * DAY, d_index = 0\<rparr>,
                       \<lparr>d_id = 4, d_tripId = 0, d_date = 20023 * DAY, d_index = 1\<rparr>,
                       \<lparr>d_id = 5, d_tripId = 0, d_date = 20024 * DAY, d_index = 2\<rparr>],
            db_acts = db_acts db_october,
            db_next = 6\<rparr>)"
    by (simp add: october_keys day_update_index_def day_create_def db_october_def)
  have r: "regenerate_days utc 0 (filter (\<lambda>d. d_tripId d = 0) (db_days db_october))
      (20022 * DAY) (20024 * DAY)
      (db_october\<lparr>db_trips := [trip_rome 0 (20022 * DAY) (20024 * DAY)]\<rparr>) =
     Some (upsert_days
      [20021 \<mapsto> \<lparr>d_id = 1, d_tripId = 0, d_date = 20021 * DAY, d_index = 0\<rparr>,
       20022 \<mapsto> \<lparr>d_id = 2, d_tripId = 0, d_date = 20022 * DAY, d_index = 1\<rparr>]
      0 [20022 * DAY, 20023 * DAY, 20024 * DAY] 0
      (db_october\<lparr>db_trips := [trip_rome 0 (20022 * DAY) (20024 * DAY)],
            db_days := [\<lparr>d_id = 2, d_tripId = 0, d_date = 20022 * DAY, d_index = 1\<rparr>]\<rparr>))"
    unfolding regenerate_days_def utc_new_dates october_deleted october_existing
    by (simp only: option.case prod.case bool.case)
  show ?thesis
    unfolding PATCH_trip_changed[OF october_request(1-4)] october_request(5) t r u
    by (simp only: option.case prod.case bool.case)
qed

subsection \<open>Export to JSON and import\<close>








subsection \<open>The reconciliation at a fixed offset\<close>

text \<open>
  The rest of this theory follows the update of a Trip at a server whose zone keeps one
  offset, for a Trip whose Days are calendar dates. There the enumeration of the new
  dates is the list of the dates of the range, 24 hours apart, and the two loops run to
  their end.
\<close>

lemma foldl_upd_other:
  "k \<notin> (\<lambda>d. dateKey (d_date d)) ` set ds \<Longrightarrow>
   foldl (\<lambda>m d. m(dateKey (d_date d) \<mapsto> d)) m ds k = m k"
  by (induction ds arbitrary: m) auto

lemma foldl_upd_Some:
  "foldl (\<lambda>m d. m(dateKey (d_date d) \<mapsto> d)) m ds k = Some dy \<Longrightarrow>
   (dy \<in> set ds \<and> dateKey (d_date dy) = k) \<or> m k = Some dy"
proof (induction ds arbitrary: m)
  case Nil
  then show ?case by simp
next
  case (Cons x xs)
  from Cons.IH[of "m(dateKey (d_date x) \<mapsto> x)"] Cons.prems
  show ?case by (auto split: if_splits)
qed

lemma existing_Some_mem:
  "existingDaysByDate ds k = Some dy \<Longrightarrow> dy \<in> set ds \<and> dateKey (d_date dy) = k"
  using foldl_upd_Some[of Map.empty ds k dy] by (simp add: existingDaysByDate_def)

lemma existing_None:
  "k \<notin> (\<lambda>d. dateKey (d_date d)) ` set ds \<Longrightarrow> existingDaysByDate ds k = None"
  by (simp add: existingDaysByDate_def foldl_upd_other)

lemma foldl_upd_mem:
  "distinct (map (\<lambda>d. dateKey (d_date d)) ds) \<Longrightarrow> d \<in> set ds \<Longrightarrow>
   foldl (\<lambda>m d. m(dateKey (d_date d) \<mapsto> d)) m ds (dateKey (d_date d)) = Some d"
proof (induction ds arbitrary: m)
  case Nil
  then show ?case by simp
next
  case (Cons x xs)
  show ?case
  proof (cases "d = x")
    case True
    have "dateKey (d_date x) \<notin> (\<lambda>d. dateKey (d_date d)) ` set xs"
      using Cons.prems(1) by auto
    then have "foldl (\<lambda>m d. m(dateKey (d_date d) \<mapsto> d)) (m(dateKey (d_date x) \<mapsto> x)) xs
        (dateKey (d_date x)) = (m(dateKey (d_date x) \<mapsto> x)) (dateKey (d_date x))"
      by (rule foldl_upd_other)
    then show ?thesis unfolding True foldl_Cons fun_upd_same .
  next
    case False
    with Cons show ?thesis by auto
  qed
qed

lemma existing_mem:
  "distinct (map (\<lambda>d. dateKey (d_date d)) ds) \<Longrightarrow> d \<in> set ds \<Longrightarrow>
   existingDaysByDate ds (dateKey (d_date d)) = Some d"
  by (simp add: existingDaysByDate_def foldl_upd_mem)

lemma dateKey_aligned: "DAY dvd t \<Longrightarrow> dateKey t * DAY = t"
  by (simp add: dateKey_def)

lemma dateKey_mult [simp]: "dateKey (k * DAY) = k"
  by (simp add: dateKey_def DAY_def)

lemma dateRange_Nil: "e < c \<Longrightarrow> date_range c e = []"
  by (subst date_range.simps) simp

lemma dateRange_Cons: "c \<le> e \<Longrightarrow> date_range c e = c # date_range (c + DAY) e"
  by (subst date_range.simps) simp

lemma newDates_fixed_zone: "newDates (fixed_zone off) c e = Some (date_range c e)"
proof (induction c e rule: date_range.induct)
  case (1 c e)
  show ?case
  proof (cases "c \<le> e")
    case False
    then show ?thesis by (simp add: newDates_done dateRange_Nil)
  next
    case True
    have "newDates (fixed_zone off) (setDate_next (fixed_zone off) c) e = Some (date_range (c + DAY) e)"
      using 1[OF True] by (simp add: fixed_zone_step)
    from newDates_step[OF True this] show ?thesis by (simp add: dateRange_Cons[OF True])
  qed
qed

lemma aligned_next:
  assumes "DAY dvd c" "DAY dvd t" "c \<le> t" "t \<noteq> c"
  shows "c + DAY \<le> t"
proof -
  from assms(1,2) obtain j k where "c = DAY * j" "t = DAY * k" by (auto simp: dvd_def)
  with assms(3,4) show ?thesis by (simp add: DAY_def)
qed

lemma index_shift:
  assumes "c + DAY \<le> (t::int)"
  shows "i + nat ((t - c) div DAY) = Suc i + nat ((t - (c + DAY)) div DAY)"
proof -
  have "(t - (c + DAY)) div DAY = (t - c) div DAY - 1" by (simp add: DAY_def)
  moreover have "1 \<le> (t - c) div DAY" using assms by (simp add: DAY_def)
  ultimately show ?thesis by simp
qed

lemma reindex_fields [simp]:
  "d_id (reindex tid c i d) = d_id d"
  "d_tripId (reindex tid c i d) = d_tripId d"
  "d_date (reindex tid c i d) = d_date d"
  by (simp_all add: reindex_def)

lemma upsert_days_eq:
  assumes ex: "\<And>k dy. ex k = Some dy \<Longrightarrow> c \<le> k * DAY \<Longrightarrow> k * DAY \<le> e \<Longrightarrow>
            \<exists>d \<in> set (db_days s). d_id d = d_id dy \<and> d_tripId d = tid \<and> d_date d = k * DAY"
    and cov: "\<And>d. d \<in> set (db_days s) \<Longrightarrow> d_tripId d = tid \<Longrightarrow> c \<le> d_date d \<Longrightarrow>
            DAY dvd d_date d \<and> d_date d \<le> e \<and>
            (\<exists>dy. ex (dateKey (d_date d)) = Some dy \<and> d_id dy = d_id d)"
    and dist: "distinct (map d_id (db_days s))"
    and fresh: "\<And>d. d \<in> set (db_days s) \<Longrightarrow> d_id d < db_next s"
    and al: "DAY dvd c"
  shows "upsert_days ex tid (date_range c e) i s =
     (True, s\<lparr>db_days := map (reindex tid c i) (db_days s) @
                  created_rows ex tid (date_range c e) i (db_next s),
              db_next := db_next s + length (created_rows ex tid (date_range c e) i (db_next s))\<rparr>)"
  using assms
proof (induction c e arbitrary: i s rule: date_range.induct)
  case (1 c e)
  show ?case
  proof (cases "c \<le> e")
    case False
    then have nd: "date_range c e = []" by (simp add: dateRange_Nil)
    have "map (reindex tid c i) (db_days s) = db_days s"
    proof (rule map_idI)
      fix d assume "d \<in> set (db_days s)"
      then show "reindex tid c i d = d"
        using "1.prems"(2)[of d] False by (auto simp: reindex_def)
    qed
    then show ?thesis by (simp add: nd)
  next
    case True
    then have nd: "date_range c e = c # date_range (c + DAY) e" by (rule dateRange_Cons)
    define k where "k = dateKey c"
    have kc: "k * DAY = c" using "1.prems"(5) by (simp add: k_def dateKey_aligned)
    have al': "DAY dvd (c + DAY)" using "1.prems"(5) by simp
    have step: "reindex tid (c + DAY) (Suc i) d = reindex tid c i d"
      if d: "d \<in> set (db_days s)" and ne: "d_tripId d = tid \<Longrightarrow> d_date d \<noteq> c" for d
    proof (cases "d_tripId d = tid \<and> c \<le> d_date d")
      case False
      then have "\<not> (d_tripId d = tid \<and> c + DAY \<le> d_date d)" by (auto simp: DAY_def)
      with False show ?thesis unfolding reindex_def by auto
    next
      case T: True
      then have c1: "c \<le> d_date d" and t1: "d_tripId d = tid" by simp_all
      from "1.prems"(2)[OF d t1 c1] have "DAY dvd d_date d" by simp
      from aligned_next[OF "1.prems"(5) this c1] ne[OF t1] have c2: "c + DAY \<le> d_date d" by simp
      have "reindex tid (c + DAY) (Suc i) d = d\<lparr>d_index := Suc i + nat ((d_date d - (c + DAY)) div DAY)\<rparr>"
        using t1 c2 by (simp add: reindex_def)
      moreover have "reindex tid c i d = d\<lparr>d_index := i + nat ((d_date d - c) div DAY)\<rparr>"
        using t1 c1 by (simp add: reindex_def)
      ultimately show ?thesis using index_shift[OF c2, of i] by simp
    qed
    show ?thesis
    proof (cases "ex k")
      case None
      define new where "new = \<lparr>d_id = db_next s, d_tripId = tid, d_date = c, d_index = i\<rparr>"
      define s' where "s' = day_create tid c i s"
      have days': "db_days s' = db_days s @ [new]" and next': "db_next s' = Suc (db_next s)"
        by (simp_all add: s'_def day_create_def new_def)
      have s'_eq: "s' = s\<lparr>db_days := db_days s @ [new], db_next := Suc (db_next s)\<rparr>"
        by (simp add: s'_def day_create_def new_def)
      have p1: "\<And>k dy. ex k = Some dy \<Longrightarrow> (c + DAY) \<le> k * DAY \<Longrightarrow> k * DAY \<le> e \<Longrightarrow>
            \<exists>d \<in> set (db_days s'). d_id d = d_id dy \<and> d_tripId d = tid \<and> d_date d = k * DAY"
      proof -
        fix k' dy assume a: "ex k' = Some dy" "(c + DAY) \<le> k' * DAY" "k' * DAY \<le> e"
        then have "c \<le> k' * DAY" by (simp add: DAY_def)
        from "1.prems"(1)[OF a(1) this a(3)] show
          "\<exists>d \<in> set (db_days s'). d_id d = d_id dy \<and> d_tripId d = tid \<and> d_date d = k' * DAY"
          by (auto simp: days')
      qed
      have p2: "\<And>d. d \<in> set (db_days s') \<Longrightarrow> d_tripId d = tid \<Longrightarrow> (c + DAY) \<le> d_date d \<Longrightarrow>
            DAY dvd d_date d \<and> d_date d \<le> e \<and>
            (\<exists>dy. ex (dateKey (d_date d)) = Some dy \<and> d_id dy = d_id d)"
      proof -
        fix d assume a: "d \<in> set (db_days s')" "d_tripId d = tid" "(c + DAY) \<le> d_date d"
        have "d_date new = c" by (simp add: new_def)
        with a(3) have "d_date d \<noteq> d_date new" by (simp add: DAY_def)
        then have "d \<noteq> new" by blast
        with a(1) have "d \<in> set (db_days s)" by (simp add: days')
        moreover have "c \<le> d_date d" using a(3) by (simp add: DAY_def)
        ultimately show "DAY dvd d_date d \<and> d_date d \<le> e \<and>
            (\<exists>dy. ex (dateKey (d_date d)) = Some dy \<and> d_id dy = d_id d)"
          using "1.prems"(2)[of d] a(2) by simp
      qed
      have "db_next s \<notin> d_id ` set (db_days s)"
      proof
        assume "db_next s \<in> d_id ` set (db_days s)"
        then obtain x where "x \<in> set (db_days s)" "d_id x = db_next s" by auto
        with "1.prems"(4)[of x] show False by simp
      qed
      then have p3: "distinct (map d_id (db_days s'))"
        using "1.prems"(3) by (simp add: days' new_def)
      have p4: "\<And>d. d \<in> set (db_days s') \<Longrightarrow> d_id d < db_next s'"
        using "1.prems"(4) by (auto simp: days' next' new_def less_Suc_eq)
      have ih: "upsert_days ex tid (date_range (c + DAY) e) (Suc i) s' =
         (True, s'\<lparr>db_days := map (reindex tid ((c + DAY)) (Suc i)) (db_days s') @
                  created_rows ex tid (date_range (c + DAY) e) (Suc i) (db_next s'),
              db_next := db_next s' + length (created_rows ex tid (date_range (c + DAY) e) (Suc i) (db_next s'))\<rparr>)"
        by (rule "1.IH"[OF True p1 p2 p3 p4 al'])
      have nonew: "reindex tid (c + DAY) (Suc i) new = new"
        by (simp add: reindex_def new_def DAY_def)
      have same: "map (reindex tid (c + DAY) (Suc i)) (db_days s) = map (reindex tid c i) (db_days s)"
      proof (rule map_cong[OF refl])
        fix d assume d: "d \<in> set (db_days s)"
        show "reindex tid (c + DAY) (Suc i) d = reindex tid c i d"
        proof (rule step[OF d])
          assume t: "d_tripId d = tid"
          show "d_date d \<noteq> c"
          proof
            assume "d_date d = c"
            with "1.prems"(2)[of d] d t have "\<exists>dy. ex (dateKey c) = Some dy" by auto
            with None show False by (simp add: k_def)
          qed
        qed
      qed
      have cr: "created_rows ex tid (date_range c e) i (db_next s) =
          new # created_rows ex tid (date_range (c + DAY) e) (Suc i) (Suc (db_next s))"
        using None by (simp add: nd k_def new_def)
      have "upsert_days ex tid (date_range c e) i s =
            upsert_days ex tid (date_range (c + DAY) e) (Suc i) s'"
        using None by (simp add: nd k_def s'_def setDate_next_def)
      also note ih
      finally show ?thesis
        unfolding cr by (simp add: s'_eq setDate_next_def nonew same)
    next
      case (Some dy)
      from "1.prems"(1)[OF Some] kc True obtain d0 where
        d0: "d0 \<in> set (db_days s)" "d_id d0 = d_id dy" "d_tripId d0 = tid" "d_date d0 = c"
        by auto
      define upd :: "day \<Rightarrow> day" where "upd = (\<lambda>d. if d_id d = d_id dy then d\<lparr>d_index := i\<rparr> else d)"
      define s' where "s' = s\<lparr>db_days := map upd (db_days s)\<rparr>"
      have updf [simp]: "d_id (upd d) = d_id d" "d_tripId (upd d) = d_tripId d" "d_date (upd d) = d_date d" for d
        by (simp_all add: upd_def)
      have "d_id dy \<in> d_id ` set (db_days s)"
        using d0(1,2) by (metis imageI)
      then have du: "day_update_index (d_id dy) i s = Some s'"
        by (simp add: day_update_index_def s'_def upd_def)
      have days': "db_days s' = map upd (db_days s)" and next': "db_next s' = db_next s"
        by (simp_all add: s'_def)
      have p1: "\<And>k dy. ex k = Some dy \<Longrightarrow> (c + DAY) \<le> k * DAY \<Longrightarrow> k * DAY \<le> e \<Longrightarrow>
            \<exists>d \<in> set (db_days s'). d_id d = d_id dy \<and> d_tripId d = tid \<and> d_date d = k * DAY"
      proof -
        fix k' dy' assume a: "ex k' = Some dy'" "(c + DAY) \<le> k' * DAY" "k' * DAY \<le> e"
        then have "c \<le> k' * DAY" by (simp add: DAY_def)
        from "1.prems"(1)[OF a(1) this a(3)] obtain d where
          "d \<in> set (db_days s)" "d_id d = d_id dy'" "d_tripId d = tid" "d_date d = k' * DAY" by auto
        then have "upd d \<in> set (db_days s')" "d_id (upd d) = d_id dy'" "d_tripId (upd d) = tid"
          "d_date (upd d) = k' * DAY" by (simp_all add: days')
        then show "\<exists>d \<in> set (db_days s'). d_id d = d_id dy' \<and> d_tripId d = tid \<and> d_date d = k' * DAY"
          by blast
      qed
      have p2: "\<And>d. d \<in> set (db_days s') \<Longrightarrow> d_tripId d = tid \<Longrightarrow> (c + DAY) \<le> d_date d \<Longrightarrow>
            DAY dvd d_date d \<and> d_date d \<le> e \<and>
            (\<exists>dy. ex (dateKey (d_date d)) = Some dy \<and> d_id dy = d_id d)"
      proof -
        fix d assume a: "d \<in> set (db_days s')" "d_tripId d = tid" "(c + DAY) \<le> d_date d"
        from a(1) obtain d' where d': "d' \<in> set (db_days s)" "d = upd d'" by (auto simp: days')
        have "c \<le> d_date d'" using a(3) d'(2) by (simp add: DAY_def)
        with "1.prems"(2)[OF d'(1)] a(2) d'(2)
        show "DAY dvd d_date d \<and> d_date d \<le> e \<and>
            (\<exists>dy. ex (dateKey (d_date d)) = Some dy \<and> d_id dy = d_id d)" by simp
      qed
      have p3: "distinct (map d_id (db_days s'))"
        using "1.prems"(3) by (simp add: days' comp_def)
      have p4: "\<And>d. d \<in> set (db_days s') \<Longrightarrow> d_id d < db_next s'"
        using "1.prems"(4) by (auto simp: days' next')
      have ih: "upsert_days ex tid (date_range (c + DAY) e) (Suc i) s' =
         (True, s'\<lparr>db_days := map (reindex tid ((c + DAY)) (Suc i)) (db_days s') @
                  created_rows ex tid (date_range (c + DAY) e) (Suc i) (db_next s'),
              db_next := db_next s' + length (created_rows ex tid (date_range (c + DAY) e) (Suc i) (db_next s'))\<rparr>)"
        by (rule "1.IH"[OF True p1 p2 p3 p4 al'])
      have same: "map (reindex tid (c + DAY) (Suc i) \<circ> upd) (db_days s) = map (reindex tid c i) (db_days s)"
      proof (rule map_cong[OF refl])
        fix d assume d: "d \<in> set (db_days s)"
        show "(reindex tid (c + DAY) (Suc i) \<circ> upd) d = reindex tid c i d"
        proof (cases "d_id d = d_id dy")
          case True
          with d d0 "1.prems"(3) have "d = d0" by (auto simp: distinct_map inj_on_def)
          then show ?thesis using d0 by (simp add: reindex_def upd_def DAY_def)
        next
          case False
          have "reindex tid (c + DAY) (Suc i) d = reindex tid c i d"
          proof (rule step[OF d])
            assume t: "d_tripId d = tid"
            show "d_date d \<noteq> c"
            proof
              assume "d_date d = c"
              with "1.prems"(2)[of d] d t have "\<exists>dy'. ex (dateKey c) = Some dy' \<and> d_id dy' = d_id d" by auto
              with Some False show False by (simp add: k_def)
            qed
          qed
          with False show ?thesis by (simp add: upd_def)
        qed
      qed
      have cr: "created_rows ex tid (date_range c e) i (db_next s) =
          created_rows ex tid (date_range (c + DAY) e) (Suc i) (db_next s)"
        using Some by (simp add: nd k_def)
      have "upsert_days ex tid (date_range c e) i s =
            upsert_days ex tid (date_range (c + DAY) e) (Suc i) s'"
        using Some du by (simp add: nd k_def setDate_next_def)
      also note ih
      finally show ?thesis
        unfolding cr by (simp add: s'_def setDate_next_def same)
    qed
  qed
qed

lemma deleted_ids:
  assumes "distinct (map d_id ds)" "d \<in> set ds"
  shows "d_id d \<in> d_id ` {x \<in> set ds. d_tripId x = tid \<and> outside a b x} \<longleftrightarrow>
         d_tripId d = tid \<and> outside a b d"
proof
  assume "d_id d \<in> d_id ` {x \<in> set ds. d_tripId x = tid \<and> outside a b x}"
  then obtain x where x: "x \<in> set ds" "d_tripId x = tid" "outside a b x" "d_id x = d_id d" by auto
  from distinct_id_eq[OF assms(1) x(1) assms(2) x(4)] x show "d_tripId d = tid \<and> outside a b d" by simp
next
  assume "d_tripId d = tid \<and> outside a b d"
  with assms(2) show "d_id d \<in> d_id ` {x \<in> set ds. d_tripId x = tid \<and> outside a b x}"
    by auto
qed

lemma aligned_keys_distinct:
  assumes "calendar_days ds"
  shows "distinct (map (\<lambda>d. dateKey (d_date d)) ds)"
proof -
  have "inj_on dateKey (d_date ` set ds)"
  proof (rule inj_onI)
    fix x y assume x: "x \<in> d_date ` set ds" and y: "y \<in> d_date ` set ds"
      and k: "dateKey x = dateKey y"
    from x y assms have "DAY dvd x" "DAY dvd y" by (auto simp: calendar_days_def list_all_iff)
    then have ex: "dateKey x * DAY = x" and ey: "dateKey y * DAY = y"
      by (simp_all add: dateKey_aligned)
    have "x = dateKey x * DAY" by (rule ex[symmetric])
    also have "\<dots> = dateKey y * DAY" by (simp only: k)
    also have "\<dots> = y" by (rule ey)
    finally show "x = y" .
  qed
  moreover have "distinct (map d_date ds)" using assms by (simp add: calendar_days_def)
  ultimately have "distinct (map dateKey (map d_date ds))"
    unfolding distinct_map[of dateKey] by simp
  then show ?thesis unfolding map_map comp_def .
qed

lemma regenerate_days_eq:
  assumes wf: "wf_db s"
    and cal: "calendar_days (filter (\<lambda>d. d_tripId d = tid) (db_days s))"
    and al: "DAY dvd a"
  shows "regenerate_days (fixed_zone off) tid (filter (\<lambda>d. d_tripId d = tid) (db_days s)) a b s =
     Some (True, s\<lparr>db_days := map (reindex tid a 0)
                    (filter (\<lambda>d. \<not> (d_tripId d = tid \<and> outside a b d)) (db_days s)) @
                  created_rows (existingDaysByDate (filter (\<lambda>d. d_tripId d = tid) (db_days s)))
                    tid (date_range a b) 0 (db_next s),
              db_acts := filter (\<lambda>x. a_dayId x \<notin>
                    d_id ` {d \<in> set (db_days s). d_tripId d = tid \<and> outside a b d}) (db_acts s),
              db_next := db_next s + length
                  (created_rows (existingDaysByDate (filter (\<lambda>d. d_tripId d = tid) (db_days s)))
                    tid (date_range a b) 0 (db_next s))\<rparr>)"
proof -
  define cur where "cur = filter (\<lambda>d. d_tripId d = tid) (db_days s)"
  define ex where "ex = existingDaysByDate cur"
  define D where "D = d_id ` {x \<in> set cur. outside a b x}"
  define kept where "kept = filter (\<lambda>d. \<not> (d_tripId d = tid \<and> outside a b d)) (db_days s)"
  define s1 where "s1 = s\<lparr>db_days := kept, db_acts := filter (\<lambda>x. a_dayId x \<notin> D) (db_acts s)\<rparr>"
  have dist: "distinct (map d_id (db_days s))"
    and fresh: "\<And>d. d \<in> set (db_days s) \<Longrightarrow> d_id d < db_next s"
    using wf by (auto simp: wf_db_def)
  have dcur: "distinct (map d_id cur)" unfolding cur_def by (rule distinct_map_filter[OF dist])
  have sub: "d_id ` set cur \<subseteq> d_id ` set (db_days s)" by (auto simp: cur_def)
  have D_eq: "D = d_id ` {d \<in> set (db_days s). d_tripId d = tid \<and> outside a b d}"
    by (auto simp: D_def cur_def)
  have keep_eq: "filter (\<lambda>d. d_id d \<notin> D) (db_days s) = kept"
    unfolding kept_def D_eq
  proof (rule filter_cong[OF refl])
    fix d assume "d \<in> set (db_days s)"
    from deleted_ids[OF dist this, of tid a b]
    show "(d_id d \<notin> d_id ` {d \<in> set (db_days s). d_tripId d = tid \<and> outside a b d}) =
          (\<not> (d_tripId d = tid \<and> outside a b d))" by blast
  qed
  have del: "delete_outside cur a b s = (True, s1)"
    unfolding delete_outside_eq[OF dcur sub] s1_def D_def[symmetric] keep_eq ..
  have days1: "db_days s1 = kept" and next1: "db_next s1 = db_next s"
    by (simp_all add: s1_def)
  have kd: "distinct (map (\<lambda>d. dateKey (d_date d)) cur)"
    using cal unfolding cur_def by (rule aligned_keys_distinct)
  have alc: "\<And>d. d \<in> set cur \<Longrightarrow> DAY dvd d_date d"
    using cal by (auto simp: cur_def calendar_days_def list_all_iff)
  have p1: "\<And>k dy. ex k = Some dy \<Longrightarrow> a \<le> k * DAY \<Longrightarrow> k * DAY \<le> b \<Longrightarrow>
            \<exists>d \<in> set (db_days s1). d_id d = d_id dy \<and> d_tripId d = tid \<and> d_date d = k * DAY"
  proof -
    fix k dy assume e: "ex k = Some dy" and r: "a \<le> k * DAY" "k * DAY \<le> b"
    from existing_Some_mem[OF e[unfolded ex_def]] have m: "dy \<in> set cur" "dateKey (d_date dy) = k"
      by simp_all
    from dateKey_aligned[OF alc[OF m(1)]] m(2) have dt: "d_date dy = k * DAY" by simp
    with r have "\<not> outside a b dy" by (simp add: outside_def)
    with m(1) have "dy \<in> set kept" by (simp add: kept_def cur_def)
    with m(1) dt show "\<exists>d \<in> set (db_days s1). d_id d = d_id dy \<and> d_tripId d = tid \<and> d_date d = k * DAY"
      by (auto simp: days1 cur_def)
  qed
  have p2: "\<And>d. d \<in> set (db_days s1) \<Longrightarrow> d_tripId d = tid \<Longrightarrow> a \<le> d_date d \<Longrightarrow>
            DAY dvd d_date d \<and> d_date d \<le> b \<and>
            (\<exists>dy. ex (dateKey (d_date d)) = Some dy \<and> d_id dy = d_id d)"
  proof -
    fix d assume d: "d \<in> set (db_days s1)" "d_tripId d = tid" "a \<le> d_date d"
    then have c: "d \<in> set cur" and no: "\<not> outside a b d"
      by (auto simp: days1 kept_def cur_def)
    from existing_mem[OF kd c] have "ex (dateKey (d_date d)) = Some d" by (simp add: ex_def)
    with alc[OF c] no show "DAY dvd d_date d \<and> d_date d \<le> b \<and>
            (\<exists>dy. ex (dateKey (d_date d)) = Some dy \<and> d_id dy = d_id d)"
      by (auto simp: outside_def)
  qed
  have p3: "distinct (map d_id (db_days s1))"
    unfolding days1 kept_def by (rule distinct_map_filter[OF dist])
  have p4: "\<And>d. d \<in> set (db_days s1) \<Longrightarrow> d_id d < db_next s1"
    using fresh by (auto simp: days1 next1 kept_def)
  have up: "upsert_days ex tid (date_range a b) 0 s1 =
     (True, s1\<lparr>db_days := map (reindex tid a 0) (db_days s1) @
                  created_rows ex tid (date_range a b) 0 (db_next s1),
              db_next := db_next s1 + length (created_rows ex tid (date_range a b) 0 (db_next s1))\<rparr>)"
    by (rule upsert_days_eq[OF p1 p2 p3 p4 al])
  have "regenerate_days (fixed_zone off) tid cur a b s = Some (upsert_days ex tid (date_range a b) 0 s1)"
    by (simp add: regenerate_days_def newDates_fixed_zone del ex_def)
  also note up
  finally show ?thesis
    unfolding cur_def[symmetric] ex_def[symmetric] D_eq[symmetric] kept_def[symmetric]
    by (simp add: s1_def)
qed

lemma dateRange_eq:
  "date_range c e = map (\<lambda>k. c + int k * DAY) [0..<nat ((e - c) div DAY + 1)]"
proof (induction c e rule: date_range.induct)
  case (1 c e)
  show ?case
  proof (cases "c \<le> e")
    case False
    then have "(e - c) div DAY < 0" by (simp add: DAY_def)
    then have "nat ((e - c) div DAY + 1) = 0" by simp
    with False show ?thesis by (simp add: dateRange_Nil)
  next
    case True
    have d: "(e - (c + DAY)) div DAY = (e - c) div DAY - 1"
      by (simp add: DAY_def)
    have nn: "0 \<le> (e - c) div DAY" using True by (simp add: DAY_def)
    then have n: "nat ((e - c) div DAY + 1) = Suc (nat ((e - c) div DAY))" by simp
    have ih: "date_range (c + DAY) e =
        map (\<lambda>k. c + DAY + int k * DAY) [0..<nat ((e - c) div DAY)]"
      using 1[OF True] d by (simp add: setDate_next_def)
    have "date_range c e = c # date_range (c + DAY) e"
      using True by (rule dateRange_Cons)
    also have "\<dots> = map (\<lambda>k. c + int k * DAY) [0..<Suc (nat ((e - c) div DAY))]"
      unfolding ih upt_conv_Cons[OF zero_less_Suc]
      by (simp add: map_Suc_upt[symmetric] algebra_simps del: upt_Suc)
    finally show ?thesis using n by simp
  qed
qed

lemma created_dates:
  "map d_date (created_rows ex tid nds i n) = filter (\<lambda>t. ex (dateKey t) = None) nds"
  by (induction nds arbitrary: i n) (auto split: option.splits)

lemma created_trip:
  "d \<in> set (created_rows ex tid nds i n) \<Longrightarrow> d_tripId d = tid"
  by (induction nds arbitrary: i n) (auto split: option.splits)

lemma created_ids:
  "map d_id (created_rows ex tid nds i n) = [n..<n + length (created_rows ex tid nds i n)]"
proof (induction nds arbitrary: i n)
  case Nil
  show ?case by simp
next
  case (Cons nd nds)
  show ?case
  proof (cases "ex (dateKey nd)")
    case None
    define L where "L = length (created_rows ex tid nds (Suc i) (Suc n))"
    have u: "[n..<n + Suc L] = n # [Suc n..<Suc n + L]"
      by (subst upt_rec) simp
    have "map d_id (created_rows ex tid (nd # nds) i n) =
          n # map d_id (created_rows ex tid nds (Suc i) (Suc n))"
      using None by simp
    also have "\<dots> = n # [Suc n..<Suc n + L]"
      unfolding L_def by (simp only: Cons[of "Suc i" "Suc n"])
    also have "\<dots> = [n..<n + Suc L]" by (rule u[symmetric])
    also have "Suc L = length (created_rows ex tid (nd # nds) i n)"
      using None by (simp add: L_def)
    finally show ?thesis .
  next
    case (Some dy)
    then show ?thesis using Cons[of "Suc i" n] by simp
  qed
qed

lemma created_id_ge:
  "d \<in> set (created_rows ex tid nds i n) \<Longrightarrow> n \<le> d_id d"
proof -
  assume "d \<in> set (created_rows ex tid nds i n)"
  then have "d_id d \<in> set (map d_id (created_rows ex tid nds i n))" by simp
  then show ?thesis unfolding created_ids by simp
qed

lemma created_index:
  "d \<in> set (created_rows ex tid (date_range c e) i n) \<Longrightarrow>
   d_index d = i + nat ((d_date d - c) div DAY) \<and> c \<le> d_date d"
proof (induction c e arbitrary: i n rule: date_range.induct)
  case (1 c e)
  show ?case
  proof (cases "c \<le> e")
    case False
    with "1.prems" show ?thesis by (simp add: dateRange_Nil)
  next
    case True
    note nd = dateRange_Cons[OF True]
    have rest: "d_index d = i + nat ((d_date d - c) div DAY) \<and> c \<le> d_date d"
      if "d \<in> set (created_rows ex tid (date_range (c + DAY) e) (Suc i) m)" for m
    proof -
      from "1.IH"[OF True, of "Suc i" m] that
      have a: "d_index d = Suc i + nat ((d_date d - (c + DAY)) div DAY)" and b: "c + DAY \<le> d_date d"
        by (simp_all add: setDate_next_def)
      from index_shift[OF b, of i] a have "d_index d = i + nat ((d_date d - c) div DAY)" by simp
      moreover have "c \<le> d_date d" using b by (simp add: DAY_def)
      ultimately show ?thesis by simp
    qed
    show ?thesis
    proof (cases "ex (dateKey c)")
      case None
      with "1.prems" have "d = \<lparr>d_id = n, d_tripId = tid, d_date = c, d_index = i\<rparr> \<or>
          d \<in> set (created_rows ex tid (date_range (c + DAY) e) (Suc i) (Suc n))"
        by (simp add: nd)
      then show ?thesis
      proof
        assume "d = \<lparr>d_id = n, d_tripId = tid, d_date = c, d_index = i\<rparr>"
        then have "d_date d = c" "d_index d = i" by simp_all
        then show ?thesis by simp
      next
        assume "d \<in> set (created_rows ex tid (date_range (c + DAY) e) (Suc i) (Suc n))"
        then show ?thesis by (rule rest)
      qed
    next
      case (Some dy)
      with "1.prems" have "d \<in> set (created_rows ex tid (date_range (c + DAY) e) (Suc i) n)"
        by (simp add: nd)
      then show ?thesis by (rule rest)
    qed
  qed
qed

lemma existing_None_iff:
  assumes "calendar_days ds" "DAY dvd t"
  shows "existingDaysByDate ds (dateKey t) = None \<longleftrightarrow> t \<notin> d_date ` set ds"
proof
  assume n: "existingDaysByDate ds (dateKey t) = None"
  show "t \<notin> d_date ` set ds"
  proof
    assume "t \<in> d_date ` set ds"
    then obtain d where d: "d \<in> set ds" "d_date d = t" by auto
    from existing_mem[OF aligned_keys_distinct[OF assms(1)] d(1)] d(2) n show False by simp
  qed
next
  assume t: "t \<notin> d_date ` set ds"
  show "existingDaysByDate ds (dateKey t) = None"
  proof (rule existing_None, rule notI)
    assume "dateKey t \<in> (\<lambda>d. dateKey (d_date d)) ` set ds"
    then obtain d where d: "d \<in> set ds" "dateKey (d_date d) = dateKey t" by auto
    from d(1) assms(1) have "DAY dvd d_date d" by (auto simp: calendar_days_def list_all_iff)
    from dateKey_aligned[OF this] have "d_date d = dateKey (d_date d) * DAY" by simp
    also have "\<dots> = dateKey t * DAY" by (simp only: d(2))
    also have "\<dots> = t" by (rule dateKey_aligned[OF assms(2)])
    finally have "d_date d = t" .
    with d(1) t show False by auto
  qed
qed

lemma dateRange_aligned: "DAY dvd c \<Longrightarrow> t \<in> set (date_range c e) \<Longrightarrow> DAY dvd t"
  by (auto simp: dateRange_eq)

lemma dateRange_range: "t \<in> set (date_range c e) \<Longrightarrow> c \<le> t \<and> t \<le> e"
proof (induction c e rule: date_range.induct)
  case (1 c e)
  show ?case
  proof (cases "c \<le> e")
    case False
    with "1.prems" show ?thesis by (simp add: dateRange_Nil)
  next
    case True
    from "1.prems" have "t = c \<or> t \<in> set (date_range (c + DAY) e)"
      by (simp add: dateRange_Cons[OF True])
    then show ?thesis
    proof
      assume "t = c" with True show ?thesis by simp
    next
      assume "t \<in> set (date_range (c + DAY) e)"
      from "1.IH"[OF True] this have "c + DAY \<le> t \<and> t \<le> e" by (simp add: setDate_next_def)
      then show ?thesis by (simp add: DAY_def)
    qed
  qed
qed

lemma dateRange_mem:
  assumes "DAY dvd c" "DAY dvd t" "c \<le> t" "t \<le> e"
  shows "t \<in> set (date_range c e)"
proof -
  from assms(1,2) obtain j k where jk: "c = DAY * j" "t = DAY * k" by (auto simp: dvd_def)
  with assms(3) have "j \<le> k" by (simp add: DAY_def)
  define m where "m = nat (k - j)"
  have t: "t = c + int m * DAY" using jk \<open>j \<le> k\<close> by (simp add: m_def algebra_simps)
  have "(t - c) div DAY \<le> (e - c) div DAY"
    using assms(4) by (intro zdiv_mono1) (simp_all add: DAY_def)
  moreover have "(t - c) div DAY = int m" unfolding t by (simp add: DAY_def)
  ultimately have "m < nat ((e - c) div DAY + 1)" by simp
  then show ?thesis unfolding dateRange_eq t by auto
qed

lemma dateRange_distinct: "distinct (date_range c e)"
  unfolding dateRange_eq by (auto simp: distinct_map inj_on_def DAY_def)

lemma regenerate_days_reconciled:
  assumes "wf_db s" "calendar_days (filter (\<lambda>d. d_tripId d = tid) (db_days s))" "DAY dvd a"
  shows "regenerate_days (fixed_zone off) tid (filter (\<lambda>d. d_tripId d = tid) (db_days s)) a b s =
           Some (True, reconciled tid a b s)"
  unfolding regenerate_days_eq[OF assms] reconciled_def Let_def ..

lemma reconciled_days:
  "db_days (reconciled tid a b s) =
     map (reindex tid a 0) (filter (\<lambda>d. \<not> (d_tripId d = tid \<and> outside a b d)) (db_days s)) @
     created_rows (existingDaysByDate (filter (\<lambda>d. d_tripId d = tid) (db_days s))) tid
       (date_range a b) 0 (db_next s)"
  by (simp add: reconciled_def Let_def)

lemma reconciled_acts:
  "db_acts (reconciled tid a b s) =
     filter (\<lambda>x. a_dayId x \<notin> d_id ` {d \<in> set (db_days s). d_tripId d = tid \<and> outside a b d})
       (db_acts s)"
  by (simp add: reconciled_def Let_def)

lemma reconciled_next:
  "db_next (reconciled tid a b s) = db_next s +
     length (created_rows (existingDaysByDate (filter (\<lambda>d. d_tripId d = tid) (db_days s))) tid
       (date_range a b) 0 (db_next s))"
  by (simp add: reconciled_def Let_def)

lemma reconciled_trips: "db_trips (reconciled tid a b s) = db_trips s"
  by (simp add: reconciled_def Let_def)

lemma reindex_in_range:
  "d_tripId d = tid \<Longrightarrow> a \<le> d_date d \<Longrightarrow>
   reindex tid a 0 d = d\<lparr>d_index := nat ((d_date d - a) div DAY)\<rparr>"
  by (simp add: reindex_def)

lemma reindex_other: "d_tripId d \<noteq> tid \<Longrightarrow> reindex tid a i d = d"
  by (simp add: reindex_def)

lemma reconciled_kept:
  assumes "d \<in> set (db_days s)" "d_tripId d = tid" "a \<le> d_date d" "d_date d \<le> b"
  shows "d\<lparr>d_index := nat ((d_date d - a) div DAY)\<rparr> \<in> set (db_days (reconciled tid a b s))"
proof -
  have "\<not> outside a b d" using assms(3,4) by (simp add: outside_def)
  with assms(1) have "d \<in> set (filter (\<lambda>d. \<not> (d_tripId d = tid \<and> outside a b d)) (db_days s))"
    by simp
  then have "reindex tid a 0 d \<in> set (db_days (reconciled tid a b s))"
    unfolding reconciled_days by simp
  then show ?thesis using reindex_in_range[OF assms(2,3)] by simp
qed

lemma reconciled_kept_acts:
  assumes wf: "wf_db s"
    and d: "d \<in> set (db_days s)" "\<not> (d_tripId d = tid \<and> outside a b d)"
  shows "filter (\<lambda>x. a_dayId x = d_id d) (db_acts (reconciled tid a b s)) =
         filter (\<lambda>x. a_dayId x = d_id d) (db_acts s)"
proof -
  have dist: "distinct (map d_id (db_days s))" using wf by (simp add: wf_db_def)
  from deleted_ids[OF dist d(1), of tid a b] d(2)
  have n: "d_id d \<notin> d_id ` {d \<in> set (db_days s). d_tripId d = tid \<and> outside a b d}" by blast
  show ?thesis unfolding reconciled_acts filter_filter
  proof (rule filter_cong[OF refl])
    fix x
    show "(a_dayId x \<notin> d_id ` {d \<in> set (db_days s). d_tripId d = tid \<and> outside a b d} \<and>
           a_dayId x = d_id d) = (a_dayId x = d_id d)"
      using n by metis
  qed
qed

lemma reconciled_deleted:
  assumes wf: "wf_db s"
    and d: "d \<in> set (db_days s)" "d_tripId d = tid" "outside a b d"
  shows "d_id d \<notin> d_id ` set (db_days (reconciled tid a b s))"
    and "filter (\<lambda>x. a_dayId x = d_id d) (db_acts (reconciled tid a b s)) = []"
proof -
  have dist: "distinct (map d_id (db_days s))"
    and fresh: "d_id d < db_next s" using wf d(1) by (auto simp: wf_db_def)
  show "d_id d \<notin> d_id ` set (db_days (reconciled tid a b s))"
  proof
    assume "d_id d \<in> d_id ` set (db_days (reconciled tid a b s))"
    then obtain x where x: "x \<in> set (db_days (reconciled tid a b s))" "d_id x = d_id d" by auto
    from x(1) consider
      y where "y \<in> set (db_days s)" "\<not> (d_tripId y = tid \<and> outside a b y)" "x = reindex tid a 0 y"
      | "x \<in> set (created_rows (existingDaysByDate (filter (\<lambda>d. d_tripId d = tid) (db_days s))) tid
       (date_range a b) 0 (db_next s))"
      unfolding reconciled_days by auto
    then show False
    proof cases
      case 1
      then have "d_id y = d_id d" using x(2) by simp
      from distinct_id_eq[OF dist 1(1) d(1) this] 1(2) d(2,3) show False by simp
    next
      case 2
      from created_id_ge[OF this] x(2) fresh show False by simp
    qed
  qed
  have "d_id d \<in> d_id ` {d \<in> set (db_days s). d_tripId d = tid \<and> outside a b d}"
    using d by auto
  then show "filter (\<lambda>x. a_dayId x = d_id d) (db_acts (reconciled tid a b s)) = []"
    unfolding reconciled_acts by (auto simp: filter_empty_conv)
qed

lemma reconciled_others:
  "filter (\<lambda>d. d_tripId d \<noteq> tid) (db_days (reconciled tid a b s)) =
   filter (\<lambda>d. d_tripId d \<noteq> tid) (db_days s)"
proof -
  have 1: "filter (\<lambda>d. d_tripId d \<noteq> tid)
      (created_rows (existingDaysByDate (filter (\<lambda>d. d_tripId d = tid) (db_days s))) tid
       (date_range a b) 0 (db_next s)) = []"
    by (auto simp: filter_empty_conv created_trip)
  have 2: "filter (\<lambda>d. d_tripId d \<noteq> tid) (map (reindex tid a 0) xs) =
           filter (\<lambda>d. d_tripId d \<noteq> tid) xs" for xs
    by (induction xs) (auto simp: reindex_other)
  show ?thesis unfolding reconciled_days filter_append 1 2 filter_filter
    by (auto intro: filter_cong)
qed

lemma reconciled_trip_days:
  "filter (\<lambda>d. d_tripId d = tid) (db_days (reconciled tid a b s)) =
     map (reindex tid a 0)
       (filter (\<lambda>d. \<not> outside a b d) (filter (\<lambda>d. d_tripId d = tid) (db_days s))) @
     created_rows (existingDaysByDate (filter (\<lambda>d. d_tripId d = tid) (db_days s))) tid
       (date_range a b) 0 (db_next s)"
proof -
  have 1: "filter (\<lambda>d. d_tripId d = tid)
      (created_rows (existingDaysByDate (filter (\<lambda>d. d_tripId d = tid) (db_days s))) tid
       (date_range a b) 0 (db_next s)) =
      created_rows (existingDaysByDate (filter (\<lambda>d. d_tripId d = tid) (db_days s))) tid
       (date_range a b) 0 (db_next s)"
    by (auto simp: filter_id_conv created_trip)
  have 2: "filter (\<lambda>d. d_tripId d = tid) (map (reindex tid a 0) xs) =
           map (reindex tid a 0) (filter (\<lambda>d. d_tripId d = tid) xs)" for xs
    by (induction xs) auto
  have 3: "filter (\<lambda>d. d_tripId d = tid) (filter (\<lambda>d. \<not> (d_tripId d = tid \<and> outside a b d)) xs) =
           filter (\<lambda>d. \<not> outside a b d) (filter (\<lambda>d. d_tripId d = tid) xs)" for xs
    unfolding filter_filter by (rule filter_cong[OF refl]) auto
  show ?thesis unfolding reconciled_days filter_append 1 2 3 ..
qed

lemma reconciled_trip_day:
  assumes cal: "calendar_days (filter (\<lambda>d. d_tripId d = tid) (db_days s))"
    and al: "DAY dvd a"
    and d: "d \<in> set (db_days (reconciled tid a b s))" "d_tripId d = tid"
  shows "DAY dvd d_date d \<and> a \<le> d_date d \<and> d_date d \<le> b \<and>
         d_index d = nat ((d_date d - a) div DAY)"
proof -
  from d have "d \<in> set (filter (\<lambda>d. d_tripId d = tid) (db_days (reconciled tid a b s)))" by simp
  then consider
    y where "y \<in> set (db_days s)" "d_tripId y = tid" "\<not> outside a b y" "d = reindex tid a 0 y"
    | "d \<in> set (created_rows (existingDaysByDate (filter (\<lambda>d. d_tripId d = tid) (db_days s))) tid
       (date_range a b) 0 (db_next s))"
    unfolding reconciled_trip_days by auto
  then show ?thesis
  proof cases
    case 1
    from 1(1,2) cal have "DAY dvd d_date y" by (auto simp: calendar_days_def list_all_iff)
    moreover from 1(3) have r: "a \<le> d_date y" "d_date y \<le> b" by (simp_all add: outside_def)
    moreover have "d = y\<lparr>d_index := nat ((d_date y - a) div DAY)\<rparr>"
      using reindex_in_range[OF 1(2) r(1)] 1(4) by simp
    ultimately show ?thesis by simp
  next
    case 2
    from created_index[OF 2] have i: "d_index d = nat ((d_date d - a) div DAY)" by simp
    from 2 have "d_date d \<in> set (map d_date (created_rows
        (existingDaysByDate (filter (\<lambda>d. d_tripId d = tid) (db_days s))) tid
       (date_range a b) 0 (db_next s)))" by simp
    then have m: "d_date d \<in> set (date_range a b)" unfolding created_dates by simp
    from dateRange_aligned[OF al m] dateRange_range[OF m] i show ?thesis by simp
  qed
qed

lemma reconciled_dates:
  assumes cal: "calendar_days (filter (\<lambda>d. d_tripId d = tid) (db_days s))"
    and al: "DAY dvd a"
  shows "d_date ` set (filter (\<lambda>d. d_tripId d = tid) (db_days (reconciled tid a b s))) =
         set (date_range a b)"
proof (intro equalityI subsetI)
  fix t assume "t \<in> d_date ` set (filter (\<lambda>d. d_tripId d = tid) (db_days (reconciled tid a b s)))"
  then obtain d where d: "d \<in> set (db_days (reconciled tid a b s))" "d_tripId d = tid" "d_date d = t"
    by auto
  from reconciled_trip_day[OF cal al d(1,2)] d(3) have "DAY dvd t" "a \<le> t" "t \<le> b" by simp_all
  then show "t \<in> set (date_range a b)" by (intro dateRange_mem al)
next
  fix t assume t: "t \<in> set (date_range a b)"
  let ?cur = "filter (\<lambda>d. d_tripId d = tid) (db_days s)"
  let ?cr = "created_rows (existingDaysByDate ?cur) tid (date_range a b) 0 (db_next s)"
  have alt: "DAY dvd t" by (rule dateRange_aligned[OF al t])
  show "t \<in> d_date ` set (filter (\<lambda>d. d_tripId d = tid) (db_days (reconciled tid a b s)))"
  proof (cases "existingDaysByDate ?cur (dateKey t)")
    case None
    with t have "t \<in> set (map d_date ?cr)" unfolding created_dates by simp
    then show ?thesis unfolding reconciled_trip_days by auto
  next
    case (Some dy)
    from existing_Some_mem[OF Some] have m: "dy \<in> set ?cur" "dateKey (d_date dy) = dateKey t"
      by simp_all
    from m(1) cal have "DAY dvd d_date dy" by (auto simp: calendar_days_def list_all_iff)
    from dateKey_aligned[OF this] have "d_date dy = dateKey (d_date dy) * DAY" by simp
    also have "\<dots> = dateKey t * DAY" by (simp only: m(2))
    also have "\<dots> = t" by (rule dateKey_aligned[OF alt])
    finally have dt: "d_date dy = t" .
    with dateRange_range[OF t] have "\<not> outside a b dy" by (simp add: outside_def)
    with m(1) have "reindex tid a 0 dy \<in> set (map (reindex tid a 0) (filter (\<lambda>d. \<not> outside a b d) ?cur))"
      by simp
    then have "reindex tid a 0 dy \<in> set (filter (\<lambda>d. d_tripId d = tid) (db_days (reconciled tid a b s)))"
      unfolding reconciled_trip_days by simp
    moreover have "d_date (reindex tid a 0 dy) = t" using dt by simp
    ultimately show ?thesis by (metis imageI)
  qed
qed

lemma reconciled_distinct_dates:
  assumes cal: "calendar_days (filter (\<lambda>d. d_tripId d = tid) (db_days s))"
    and al: "DAY dvd a"
  shows "distinct (map d_date (filter (\<lambda>d. d_tripId d = tid) (db_days (reconciled tid a b s))))"
proof -
  let ?cur = "filter (\<lambda>d. d_tripId d = tid) (db_days s)"
  let ?cr = "created_rows (existingDaysByDate ?cur) tid (date_range a b) 0 (db_next s)"
  have m: "map d_date (map (reindex tid a 0) xs) = map d_date xs" for xs
    by (induction xs) auto
  have "distinct (map d_date ?cur)" using cal by (simp add: calendar_days_def)
  then have 1: "distinct (map d_date (filter (\<lambda>d. \<not> outside a b d) ?cur))"
    by (rule distinct_map_filter)
  have 2: "distinct (map d_date ?cr)"
    unfolding created_dates by (rule distinct_filter[OF dateRange_distinct])
  have 3: "set (map d_date (filter (\<lambda>d. \<not> outside a b d) ?cur)) \<inter> set (map d_date ?cr) = {}"
  proof (rule ccontr)
    assume "set (map d_date (filter (\<lambda>d. \<not> outside a b d) ?cur)) \<inter> set (map d_date ?cr) \<noteq> {}"
    then obtain t where t1: "t \<in> set (map d_date (filter (\<lambda>d. \<not> outside a b d) ?cur))"
      and t2: "t \<in> set (map d_date ?cr)" by auto
    from t2 have n: "t \<in> set (date_range a b)" "existingDaysByDate ?cur (dateKey t) = None"
      unfolding created_dates by simp_all
    from existing_None_iff[OF cal dateRange_aligned[OF al n(1)]] n(2)
    have "t \<notin> d_date ` set ?cur" by simp
    with t1 show False by auto
  qed
  show ?thesis
    unfolding reconciled_trip_days map_append m distinct_append using 1 2 3 by simp
qed

lemma reconciled_rows:
  assumes cal: "calendar_days (filter (\<lambda>d. d_tripId d = tid) (db_days s))"
    and al: "DAY dvd a"
  shows "set (map (\<lambda>d. (d_date d, d_index d))
            (filter (\<lambda>d. d_tripId d = tid) (db_days (reconciled tid a b s)))) =
         (\<lambda>k. (a + int k * DAY, k)) ` {..<nat ((b - a) div DAY + 1)}"
proof (intro equalityI subsetI)
  fix p assume "p \<in> set (map (\<lambda>d. (d_date d, d_index d))
            (filter (\<lambda>d. d_tripId d = tid) (db_days (reconciled tid a b s))))"
  then obtain d where d: "d \<in> set (db_days (reconciled tid a b s))" "d_tripId d = tid"
    and p: "p = (d_date d, d_index d)" by auto
  from reconciled_trip_day[OF cal al d] have i: "d_index d = nat ((d_date d - a) div DAY)" by simp
  from d have "d_date d \<in> d_date ` set (filter (\<lambda>d. d_tripId d = tid) (db_days (reconciled tid a b s)))"
    by auto
  then have "d_date d \<in> set (date_range a b)" unfolding reconciled_dates[OF cal al] .
  then obtain k where k: "k < nat ((b - a) div DAY + 1)" "d_date d = a + int k * DAY"
    unfolding dateRange_eq by auto
  have "d_index d = k" unfolding i k(2) by (simp add: DAY_def)
  with k p show "p \<in> (\<lambda>k. (a + int k * DAY, k)) ` {..<nat ((b - a) div DAY + 1)}" by auto
next
  fix p assume "p \<in> (\<lambda>k. (a + int k * DAY, k)) ` {..<nat ((b - a) div DAY + 1)}"
  then obtain k where k: "k < nat ((b - a) div DAY + 1)" and p: "p = (a + int k * DAY, k)" by auto
  from k have "a + int k * DAY \<in> set (date_range a b)" unfolding dateRange_eq by auto
  then have "a + int k * DAY \<in> d_date ` set (filter (\<lambda>d. d_tripId d = tid) (db_days (reconciled tid a b s)))"
    unfolding reconciled_dates[OF cal al] .
  then obtain d where d: "d \<in> set (db_days (reconciled tid a b s))" "d_tripId d = tid"
    "d_date d = a + int k * DAY" by auto
  from reconciled_trip_day[OF cal al d(1,2)] have "d_index d = nat ((d_date d - a) div DAY)" by simp
  then have "d_index d = k" unfolding d(3) by (simp add: DAY_def)
  with d p show "p \<in> set (map (\<lambda>d. (d_date d, d_index d))
            (filter (\<lambda>d. d_tripId d = tid) (db_days (reconciled tid a b s))))" by force
qed

lemma reconciled_wf:
  assumes wf: "wf_db s" and tid: "tid < db_next s"
  shows "wf_db (reconciled tid a b s)"
proof -
  let ?cur = "filter (\<lambda>d. d_tripId d = tid) (db_days s)"
  let ?cr = "created_rows (existingDaysByDate ?cur) tid (date_range a b) 0 (db_next s)"
  let ?kept = "filter (\<lambda>d. \<not> (d_tripId d = tid \<and> outside a b d)) (db_days s)"
  have dist: "distinct (map d_id (db_days s))"
    and fresh: "\<And>d. d \<in> set (db_days s) \<Longrightarrow> d_id d < db_next s \<and> d_tripId d < db_next s"
    and trips: "\<And>t. t \<in> set (db_trips s) \<Longrightarrow> t_id t < db_next s"
    using wf by (auto simp: wf_db_def)
  have m: "map d_id (map (reindex tid a 0) xs) = map d_id xs" for xs
    by (induction xs) auto
  have 1: "distinct (map d_id ?kept)" by (rule distinct_map_filter[OF dist])
  have 2: "distinct (map d_id ?cr)" unfolding created_ids by simp
  have 3: "set (map d_id ?kept) \<inter> set (map d_id ?cr) = {}"
  proof (rule ccontr)
    assume "set (map d_id ?kept) \<inter> set (map d_id ?cr) \<noteq> {}"
    then obtain i where i1: "i \<in> set (map d_id ?kept)" and i2: "i \<in> set (map d_id ?cr)" by auto
    from i1 obtain d where "d \<in> set (db_days s)" "d_id d = i" by auto
    with fresh[of d] have "i < db_next s" by simp
    moreover from i2 have "db_next s \<le> i" unfolding created_ids by simp
    ultimately show False by simp
  qed
  have d: "distinct (map d_id (db_days (reconciled tid a b s)))"
    unfolding reconciled_days map_append m distinct_append using 1 2 3 by simp
  have f: "d_id x < db_next (reconciled tid a b s) \<and> d_tripId x < db_next (reconciled tid a b s)"
    if "x \<in> set (db_days (reconciled tid a b s))" for x
  proof -
    from that consider
      y where "y \<in> set (db_days s)" "x = reindex tid a 0 y" | "x \<in> set ?cr"
      unfolding reconciled_days by auto
    then show ?thesis
    proof cases
      case 1
      with fresh[of y] show ?thesis by (simp add: reconciled_next)
    next
      case 2
      then have "d_id x \<in> set (map d_id ?cr)" by simp
      then have "d_id x < db_next s + length ?cr" unfolding created_ids by simp
      moreover have "d_tripId x = tid" using 2 by (rule created_trip)
      ultimately show ?thesis using tid by (simp add: reconciled_next)
    qed
  qed
  have t: "t_id x < db_next (reconciled tid a b s)" if "x \<in> set (db_trips (reconciled tid a b s))" for x
    using that trips[of x] by (simp add: reconciled_trips reconciled_next)
  show ?thesis unfolding wf_db_def using d f t by blast
qed

lemma reconciled_calendar:
  assumes cal: "calendar_days (filter (\<lambda>d. d_tripId d = tid) (db_days s))"
    and al: "DAY dvd a"
  shows "calendar_days (filter (\<lambda>d. d_tripId d = tid) (db_days (reconciled tid a b s)))"
proof -
  have "list_all (\<lambda>d. DAY dvd d_date d) (filter (\<lambda>d. d_tripId d = tid) (db_days (reconciled tid a b s)))"
    unfolding list_all_iff using reconciled_trip_day[OF cal al] by auto
  with reconciled_distinct_dates[OF cal al] show ?thesis by (simp add: calendar_days_def)
qed

lemma created_rows_Nil:
  "(\<And>t. t \<in> set nds \<Longrightarrow> ex (dateKey t) \<noteq> None) \<Longrightarrow> created_rows ex tid nds i n = []"
proof (induction nds arbitrary: i)
  case Nil
  show ?case by simp
next
  case (Cons nd nds)
  from Cons.prems[of nd] obtain dy where "ex (dateKey nd) = Some dy" by auto
  moreover have "created_rows ex tid nds (Suc i) n = []"
    by (rule Cons.IH) (simp add: Cons.prems)
  ultimately show ?case by simp
qed

lemma reconciled_idem:
  assumes cal: "calendar_days (filter (\<lambda>d. d_tripId d = tid) (db_days s))"
    and al: "DAY dvd a"
  shows "reconciled tid a b (reconciled tid a b s) = reconciled tid a b s"
proof -
  define s' where "s' = reconciled tid a b s"
  have td: "\<And>d. d \<in> set (db_days s') \<Longrightarrow> d_tripId d = tid \<Longrightarrow>
      DAY dvd d_date d \<and> a \<le> d_date d \<and> d_date d \<le> b \<and> d_index d = nat ((d_date d - a) div DAY)"
    unfolding s'_def by (rule reconciled_trip_day[OF cal al])
  have cal': "calendar_days (filter (\<lambda>d. d_tripId d = tid) (db_days s'))"
    unfolding s'_def by (rule reconciled_calendar[OF cal al])
  have dates': "d_date ` set (filter (\<lambda>d. d_tripId d = tid) (db_days s')) = set (date_range a b)"
    unfolding s'_def by (rule reconciled_dates[OF cal al])
  have no_out: "\<not> (d_tripId d = tid \<and> outside a b d)" if "d \<in> set (db_days s')" for d
    using td[OF that] by (auto simp: outside_def)
  have 1: "filter (\<lambda>d. \<not> (d_tripId d = tid \<and> outside a b d)) (db_days s') = db_days s'"
    unfolding filter_id_conv using no_out by blast
  have 2: "map (reindex tid a 0) (db_days s') = db_days s'"
  proof (rule map_idI)
    fix d assume d: "d \<in> set (db_days s')"
    show "reindex tid a 0 d = d"
    proof (cases "d_tripId d = tid")
      case True
      from td[OF d True] have "a \<le> d_date d" "d_index d = nat ((d_date d - a) div DAY)" by simp_all
      with True show ?thesis by (simp add: reindex_def)
    next
      case False
      then show ?thesis by (rule reindex_other)
    qed
  qed
  have 3: "created_rows (existingDaysByDate (filter (\<lambda>d. d_tripId d = tid) (db_days s'))) tid
       (date_range a b) 0 (db_next s') = []"
  proof (rule created_rows_Nil)
    fix t assume t: "t \<in> set (date_range a b)"
    then have "t \<in> d_date ` set (filter (\<lambda>d. d_tripId d = tid) (db_days s'))"
      unfolding dates' .
    with existing_None_iff[OF cal' dateRange_aligned[OF al t]]
    show "existingDaysByDate (filter (\<lambda>d. d_tripId d = tid) (db_days s')) (dateKey t) \<noteq> None"
      by blast
  qed
  have 4: "{d \<in> set (db_days s'). d_tripId d = tid \<and> outside a b d} = {}"
    using no_out by blast
  have "reconciled tid a b s' = s'"
    unfolding reconciled_def Let_def 1 2 3 4 by simp
  then show ?thesis unfolding s'_def .
qed

lemma reconciled_new_rows:
  assumes wf: "wf_db s"
  shows "{d \<in> set (db_days (reconciled tid a b s)). d_id d \<notin> d_id ` set (db_days s)} =
         set (created_rows (existingDaysByDate (filter (\<lambda>d. d_tripId d = tid) (db_days s))) tid
                (date_range a b) 0 (db_next s))"
proof (intro equalityI subsetI)
  let ?cr = "created_rows (existingDaysByDate (filter (\<lambda>d. d_tripId d = tid) (db_days s))) tid
                (date_range a b) 0 (db_next s)"
  fix x assume "x \<in> {d \<in> set (db_days (reconciled tid a b s)). d_id d \<notin> d_id ` set (db_days s)}"
  then have x: "x \<in> set (db_days (reconciled tid a b s))" "d_id x \<notin> d_id ` set (db_days s)" by simp_all
  from x(1) consider
      y where "y \<in> set (db_days s)" "x = reindex tid a 0 y" | "x \<in> set ?cr"
      unfolding reconciled_days by auto
  then show "x \<in> set ?cr"
  proof cases
    case 1
    then have "d_id x \<in> d_id ` set (db_days s)" by auto
    with x(2) show ?thesis by simp
  next
    case 2
    then show ?thesis .
  qed
next
  let ?cr = "created_rows (existingDaysByDate (filter (\<lambda>d. d_tripId d = tid) (db_days s))) tid
                (date_range a b) 0 (db_next s)"
  fix x assume x: "x \<in> set ?cr"
  have "d_id x \<notin> d_id ` set (db_days s)"
  proof
    assume "d_id x \<in> d_id ` set (db_days s)"
    then obtain y where "y \<in> set (db_days s)" "d_id y = d_id x" by auto
    with wf have "d_id x < db_next s" by (auto simp: wf_db_def)
    with created_id_ge[OF x] show False by simp
  qed
  moreover have "x \<in> set (db_days (reconciled tid a b s))" using x unfolding reconciled_days by simp
  ultimately show "x \<in> {d \<in> set (db_days (reconciled tid a b s)). d_id d \<notin> d_id ` set (db_days s)}"
    by simp
qed

lemma reconciled_new_dates:
  assumes wf: "wf_db s"
    and cal: "calendar_days (filter (\<lambda>d. d_tripId d = tid) (db_days s))"
    and al: "DAY dvd a"
  shows "d_date ` {d \<in> set (db_days (reconciled tid a b s)). d_id d \<notin> d_id ` set (db_days s)} =
         {t \<in> (\<lambda>k. a + int k * DAY) ` {..<nat ((b - a) div DAY + 1)}.
            t \<notin> d_date ` {d \<in> set (db_days s). d_tripId d = tid}}"
proof -
  let ?cur = "filter (\<lambda>d. d_tripId d = tid) (db_days s)"
  have s: "set (date_range a b) = (\<lambda>k. a + int k * DAY) ` {..<nat ((b - a) div DAY + 1)}"
    unfolding dateRange_eq by auto
  have "d_date ` {d \<in> set (db_days (reconciled tid a b s)). d_id d \<notin> d_id ` set (db_days s)} =
        set (map d_date (created_rows (existingDaysByDate ?cur) tid (date_range a b) 0 (db_next s)))"
    unfolding reconciled_new_rows[OF wf] by simp
  also have "\<dots> = {t \<in> set (date_range a b). existingDaysByDate ?cur (dateKey t) = None}"
    unfolding created_dates by auto
  also have "\<dots> = {t \<in> set (date_range a b). t \<notin> d_date ` set ?cur}"
    using existing_None_iff[OF cal dateRange_aligned[OF al]] by blast
  finally show ?thesis unfolding s by simp
qed

lemma trip_update_idem:
  "trip_update tid body a b (trip_update tid body a b t) = trip_update tid body a b t"
  by (simp add: trip_update_def split: option.splits)

lemma find_map_trip_update:
  "find (\<lambda>t. t_id t = tid) (map (trip_update tid' body a b) ts) =
   map_option (trip_update tid' body a b) (find (\<lambda>t. t_id t = tid) ts)"
  by (induction ts) auto

lemma PATCH_trip_reconciles:
  assumes wf: "wf_db s"
    and trip: "find (\<lambda>t. t_id t = tid) (db_trips s) = Some cur"
    and s2: "s2 = (case tb_startDate body of Some t \<Rightarrow> t | None \<Rightarrow> t_startDate cur)"
    and e2: "e2 = (case tb_endDate body of Some t \<Rightarrow> t | None \<Rightarrow> t_endDate cur)"
    and changed: "datesChanged body cur"
    and cal: "calendar_days (filter (\<lambda>d. d_tripId d = tid) (db_days s))"
    and al: "DAY dvd s2"
  shows "PATCH_trip (fixed_zone off) s tid body =
     Some (Ok (trip_update tid body s2 e2 cur),
      reconciled tid s2 e2 (s\<lparr>db_trips := map (trip_update tid body s2 e2) (db_trips s)\<rparr>))"
proof -
  define s1 where "s1 = s\<lparr>db_trips := map (trip_update tid body s2 e2) (db_trips s)\<rparr>"
  have d1: "db_days s1 = db_days s" by (simp add: s1_def)
  have wf1: "wf_db s1" using wf by (auto simp: wf_db_def s1_def)
  have cal1: "calendar_days (filter (\<lambda>d. d_tripId d = tid) (db_days s1))" using cal by (simp add: d1)
  from regenerate_days_reconciled[OF wf1 cal1 al, of off e2]
  have "regenerate_days (fixed_zone off) tid (filter (\<lambda>d. d_tripId d = tid) (db_days s)) s2 e2 s1 =
          Some (True, reconciled tid s2 e2 s1)" by (simp add: d1)
  then show ?thesis
    unfolding PATCH_trip_changed[OF trip changed s2 e2] s1_def[symmetric] by simp
qed

lemma PATCH_trip_again:
  assumes trip: "find (\<lambda>t. t_id t = tid) (db_trips s) = Some cur"
    and s2: "s2 = (case tb_startDate body of Some t \<Rightarrow> t | None \<Rightarrow> t_startDate cur)"
    and e2: "e2 = (case tb_endDate body of Some t \<Rightarrow> t | None \<Rightarrow> t_endDate cur)"
    and s': "db_trips s' = map (trip_update tid body s2 e2) (db_trips s)"
  shows "PATCH_trip (fixed_zone off) s' tid body = Some (Ok (trip_update tid body s2 e2 cur), s')"
proof -
  define tr where "tr = trip_update tid body s2 e2 cur"
  from find_Some_mem[OF trip] have id: "t_id cur = tid" by simp
  have f: "find (\<lambda>t. t_id t = tid) (db_trips s') = Some tr"
    unfolding s' find_map_trip_update trip tr_def by simp
  have dt: "t_startDate tr = s2" "t_endDate tr = e2"
    using trip_update_dates[OF id, of body s2 e2] by (simp_all add: tr_def)
  have nc: "\<not> datesChanged body tr"
    using s2 e2 dt by (auto simp: datesChanged_def split: option.splits)
  have s2': "s2 = (case tb_startDate body of Some t \<Rightarrow> t | None \<Rightarrow> t_startDate tr)"
    using s2 dt by (simp split: option.splits)
  have e2': "e2 = (case tb_endDate body of Some t \<Rightarrow> t | None \<Rightarrow> t_endDate tr)"
    using e2 dt by (simp split: option.splits)
  have "map (trip_update tid body s2 e2) (db_trips s') = db_trips s'"
    unfolding s' map_map comp_def trip_update_idem ..
  then have "s'\<lparr>db_trips := map (trip_update tid body s2 e2) (db_trips s')\<rparr> = s'" by simp
  moreover have "trip_update tid body s2 e2 tr = tr" unfolding tr_def by (rule trip_update_idem)
  ultimately show ?thesis
    unfolding PATCH_trip_unchanged[OF f nc s2' e2'] tr_def[symmetric] by simp
qed

text \<open>
  An update that changes the range of a Trip, at such a server, when the Days of the
  Trip are calendar dates and the new start is one. The handler answers with the updated
  Trip. Every Day of the Trip dated within the new range is kept with its Activities and
  numbered by its distance from the new start; every Day of the Trip outside the range
  is gone with its Activities. The Days of the Trip are then one for each date of the
  new range, numbered 0, 1, ... in date order; the rows that are new belong to the Trip,
  and their dates are the dates of the range that had no Day. The Days of other Trips
  are untouched, and a second reconciliation, or a second update with the same body,
  changes nothing.
\<close>

lemma day_reconciliation_fixed_offset:
  assumes wf: "wf_db s"
    and trip: "find (\<lambda>t. t_id t = tid) (db_trips s) = Some cur"
    and s2: "s2 = (case tb_startDate body of Some t \<Rightarrow> t | None \<Rightarrow> t_startDate cur)"
    and e2: "e2 = (case tb_endDate body of Some t \<Rightarrow> t | None \<Rightarrow> t_endDate cur)"
    and changed: "datesChanged body cur"
    and cal: "calendar_days (filter (\<lambda>d. d_tripId d = tid) (db_days s))"
    and al: "DAY dvd s2"
  shows "\<exists>tr s'. PATCH_trip (fixed_zone off) s tid body = Some (Ok tr, s') \<and>
     t_startDate tr = s2 \<and> t_endDate tr = e2 \<and>
     (\<forall>d \<in> set (db_days s). d_tripId d = tid \<and> s2 \<le> d_date d \<and> d_date d \<le> e2 \<longrightarrow>
        d\<lparr>d_index := nat ((d_date d - s2) div DAY)\<rparr> \<in> set (db_days s') \<and>
        filter (\<lambda>x. a_dayId x = d_id d) (db_acts s') =
          filter (\<lambda>x. a_dayId x = d_id d) (db_acts s)) \<and>
     (\<forall>d \<in> set (db_days s). d_tripId d = tid \<and> (d_date d < s2 \<or> e2 < d_date d) \<longrightarrow>
        d_id d \<notin> d_id ` set (db_days s') \<and>
        filter (\<lambda>x. a_dayId x = d_id d) (db_acts s') = []) \<and>
     distinct (map d_date (filter (\<lambda>d. d_tripId d = tid) (db_days s'))) \<and>
     set (map (\<lambda>d. (d_date d, d_index d)) (filter (\<lambda>d. d_tripId d = tid) (db_days s'))) =
       (\<lambda>k. (s2 + int k * DAY, k)) ` {..<nat ((e2 - s2) div DAY + 1)} \<and>
     (\<forall>d \<in> set (db_days s'). d_id d \<notin> d_id ` set (db_days s) \<longrightarrow> d_tripId d = tid) \<and>
     d_date ` {d \<in> set (db_days s'). d_id d \<notin> d_id ` set (db_days s)} =
       {t \<in> (\<lambda>k. s2 + int k * DAY) ` {..<nat ((e2 - s2) div DAY + 1)}.
          t \<notin> d_date ` {d \<in> set (db_days s). d_tripId d = tid}} \<and>
     filter (\<lambda>d. d_tripId d \<noteq> tid) (db_days s') = filter (\<lambda>d. d_tripId d \<noteq> tid) (db_days s) \<and>
     regenerate_days (fixed_zone off) tid (filter (\<lambda>d. d_tripId d = tid) (db_days s')) s2 e2 s' = Some (True, s') \<and>
     PATCH_trip (fixed_zone off) s' tid body = Some (Ok tr, s')"
proof -
  define s1 where "s1 = s\<lparr>db_trips := map (trip_update tid body s2 e2) (db_trips s)\<rparr>"
  define s' where "s' = reconciled tid s2 e2 s1"
  define tr where "tr = trip_update tid body s2 e2 cur"
  have d1: "db_days s1 = db_days s" and a1: "db_acts s1 = db_acts s" and n1: "db_next s1 = db_next s"
    by (simp_all add: s1_def)
  have wf1: "wf_db s1" using wf by (auto simp: wf_db_def s1_def)
  have cal1: "calendar_days (filter (\<lambda>d. d_tripId d = tid) (db_days s1))" using cal by (simp add: d1)
  from find_Some_mem[OF trip] have cur: "cur \<in> set (db_trips s)" "t_id cur = tid" by simp_all
  then have tid: "tid < db_next s1" using wf by (auto simp: wf_db_def n1)
  have c1: "PATCH_trip (fixed_zone off) s tid body = Some (Ok tr, s')"
    unfolding tr_def s'_def s1_def by (rule PATCH_trip_reconciles[OF assms])
  have c2: "t_startDate tr = s2" "t_endDate tr = e2"
    using trip_update_dates[OF cur(2), of body s2 e2] by (simp_all add: tr_def)
  have c3: "\<forall>d \<in> set (db_days s). d_tripId d = tid \<and> s2 \<le> d_date d \<and> d_date d \<le> e2 \<longrightarrow>
        d\<lparr>d_index := nat ((d_date d - s2) div DAY)\<rparr> \<in> set (db_days s') \<and>
        filter (\<lambda>x. a_dayId x = d_id d) (db_acts s') =
          filter (\<lambda>x. a_dayId x = d_id d) (db_acts s)"
  proof (intro ballI impI)
    fix d assume d: "d \<in> set (db_days s)" and r: "d_tripId d = tid \<and> s2 \<le> d_date d \<and> d_date d \<le> e2"
    from d have d': "d \<in> set (db_days s1)" by (simp add: d1)
    from r have no: "\<not> (d_tripId d = tid \<and> outside s2 e2 d)" by (simp add: outside_def)
    from reconciled_kept[OF d', of tid s2 e2] r
    have "d\<lparr>d_index := nat ((d_date d - s2) div DAY)\<rparr> \<in> set (db_days s')" by (simp add: s'_def)
    moreover from reconciled_kept_acts[OF wf1 d' no]
    have "filter (\<lambda>x. a_dayId x = d_id d) (db_acts s') = filter (\<lambda>x. a_dayId x = d_id d) (db_acts s)"
      by (simp add: s'_def a1)
    ultimately show "d\<lparr>d_index := nat ((d_date d - s2) div DAY)\<rparr> \<in> set (db_days s') \<and>
        filter (\<lambda>x. a_dayId x = d_id d) (db_acts s') =
          filter (\<lambda>x. a_dayId x = d_id d) (db_acts s)" by simp
  qed
  have c4: "\<forall>d \<in> set (db_days s). d_tripId d = tid \<and> (d_date d < s2 \<or> e2 < d_date d) \<longrightarrow>
        d_id d \<notin> d_id ` set (db_days s') \<and>
        filter (\<lambda>x. a_dayId x = d_id d) (db_acts s') = []"
  proof (intro ballI impI)
    fix d assume d: "d \<in> set (db_days s)" and r: "d_tripId d = tid \<and> (d_date d < s2 \<or> e2 < d_date d)"
    from d have d': "d \<in> set (db_days s1)" by (simp add: d1)
    from r have t: "d_tripId d = tid" and out: "outside s2 e2 d" by (auto simp: outside_def)
    from reconciled_deleted[OF wf1 d' t out]
    show "d_id d \<notin> d_id ` set (db_days s') \<and> filter (\<lambda>x. a_dayId x = d_id d) (db_acts s') = []"
      by (simp add: s'_def)
  qed
  have c5: "distinct (map d_date (filter (\<lambda>d. d_tripId d = tid) (db_days s')))"
    unfolding s'_def by (rule reconciled_distinct_dates[OF cal1 al])
  have c6: "set (map (\<lambda>d. (d_date d, d_index d)) (filter (\<lambda>d. d_tripId d = tid) (db_days s'))) =
       (\<lambda>k. (s2 + int k * DAY, k)) ` {..<nat ((e2 - s2) div DAY + 1)}"
    unfolding s'_def by (rule reconciled_rows[OF cal1 al])
  have c7: "\<forall>d \<in> set (db_days s'). d_id d \<notin> d_id ` set (db_days s) \<longrightarrow> d_tripId d = tid"
  proof (intro ballI impI)
    fix d assume "d \<in> set (db_days s')" "d_id d \<notin> d_id ` set (db_days s)"
    then have "d \<in> {d \<in> set (db_days (reconciled tid s2 e2 s1)). d_id d \<notin> d_id ` set (db_days s1)}"
      by (simp add: s'_def d1)
    then show "d_tripId d = tid" unfolding reconciled_new_rows[OF wf1] by (rule created_trip)
  qed
  have c8: "d_date ` {d \<in> set (db_days s'). d_id d \<notin> d_id ` set (db_days s)} =
       {t \<in> (\<lambda>k. s2 + int k * DAY) ` {..<nat ((e2 - s2) div DAY + 1)}.
          t \<notin> d_date ` {d \<in> set (db_days s). d_tripId d = tid}}"
    using reconciled_new_dates[OF wf1 cal1 al, of e2] by (simp add: s'_def d1)
  have c9: "filter (\<lambda>d. d_tripId d \<noteq> tid) (db_days s') = filter (\<lambda>d. d_tripId d \<noteq> tid) (db_days s)"
    using reconciled_others[of tid s2 e2 s1] by (simp add: s'_def d1)
  have wf': "wf_db s'" unfolding s'_def by (rule reconciled_wf[OF wf1 tid])
  have cal': "calendar_days (filter (\<lambda>d. d_tripId d = tid) (db_days s'))"
    unfolding s'_def by (rule reconciled_calendar[OF cal1 al])
  have "reconciled tid s2 e2 s' = s'" unfolding s'_def by (rule reconciled_idem[OF cal1 al])
  with regenerate_days_reconciled[OF wf' cal' al, of off e2]
  have c10: "regenerate_days (fixed_zone off) tid (filter (\<lambda>d. d_tripId d = tid) (db_days s')) s2 e2 s' = Some (True, s')"
    by simp
  have "db_trips s' = map (trip_update tid body s2 e2) (db_trips s)"
    by (simp add: s'_def reconciled_trips s1_def)
  from PATCH_trip_again[OF trip s2 e2 this]
  have c11: "PATCH_trip (fixed_zone off) s' tid body = Some (Ok tr, s')" by (simp add: tr_def)
  show ?thesis
    using c1 c2 c3 c4 c5 c6 c7 c8 c9 c10 c11
    by (intro exI[of _ tr] exI[of _ s'] conjI)
qed

end
